theory Spec2Isabelle
  imports Complex_Main "HOL-Library.Word" "HOL-Library.Sublist"
begin

unbundle bit_operations_syntax

section \<open>Row format v2: the row writer of src/codec/RowWriterV2.cpp\<close>

subsection \<open>Bytes and little-endian integers\<close>

type_synonym byte = "8 word"

text \<open>
  \<open>le_bytes n v\<close> is what \<open>memcpy(dst, &v, n)\<close> copies from an integer \<open>v\<close> on a
  little-endian host: the \<open>n\<close> low bytes of the two's complement representation,
  lowest first.
\<close>

fun le_bytes :: "nat \<Rightarrow> int \<Rightarrow> byte list" where
  "le_bytes 0 v = []"
| "le_bytes (Suc n) v = word_of_int v # le_bytes n (v div 256)"

text \<open>The unsigned value of a little-endian byte sequence.\<close>

fun le_val :: "byte list \<Rightarrow> nat" where
  "le_val [] = 0"
| "le_val (b # bs) = unat b + 256 * le_val bs"

text \<open>Reading four bytes into an \<open>int32_t\<close>.\<close>

definition load_int32 :: "byte list \<Rightarrow> nat \<Rightarrow> int" where
  "load_int32 b off =
     (let n = int (le_val (take 4 (drop off b)))
      in if n < 2 ^ 31 then n else n - 2 ^ 32)"

text \<open>
  \<open>memcpy(&buf[off], src, length src)\<close> and the single-byte store \<open>buf[off] = x\<close>.
  A store past the end of the buffer is undefined in C++; the model drops it.
\<close>

fun memcpy_at :: "byte list \<Rightarrow> nat \<Rightarrow> byte list \<Rightarrow> byte list" where
  "memcpy_at b off [] = b"
| "memcpy_at b off (x # xs) = memcpy_at (b[off := x]) (Suc off) xs"

subsection \<open>Schema and values\<close>

datatype PropertyType =
    BOOL | INT8 | INT16 | INT32 | INT64 | TIMESTAMP | FLOAT | DOUBLE
  | STRING | FIXED_STRING | GEOGRAPHY | DATE | TIME | DATETIME | DURATION
  | LIST_STRING | LIST_INT | LIST_FLOAT | SET_STRING | SET_INT | SET_FLOAT
  | VID | UNKNOWN

datatype WriteResult =
  SUCCEEDED | UNKNOWN_FIELD | TYPE_MISMATCH | OUT_OF_RANGE | NOT_NULLABLE | FIELD_UNSET

text \<open>\<open>LOG(FATAL)\<close> and a failed \<open>CHECK\<close> abort the process.\<close>

datatype Fatal =
    SchemaVersionTooBig | BadSignature | SchemaVersionMismatch
  | AlreadyFinished | UnsupportedDefault | BadStrListIndex

datatype GeoShape = ANY | POINT | LINESTRING | POLYGON

text \<open>\<open>folly::to<uint32_t>\<close> of the schema's shape constraint.\<close>

fun shapeCode :: "GeoShape \<Rightarrow> nat" where
  "shapeCode ANY = 0"
| "shapeCode POINT = 1"
| "shapeCode LINESTRING = 2"
| "shapeCode POLYGON = 3"

text \<open>
  A floating-point value: a finite one is a rational number; infinities and NaN are
  values of their own. Comparisons with NaN are false.
\<close>

datatype fval = Finite rat | PosInf | NegInf | NaN

fun fgt :: "fval \<Rightarrow> rat \<Rightarrow> bool" where
  "fgt (Finite q) c = (q > c)"
| "fgt PosInf c = True"
| "fgt NegInf c = False"
| "fgt NaN c = False"

fun flt :: "fval \<Rightarrow> rat \<Rightarrow> bool" where
  "flt (Finite q) c = (q < c)"
| "flt PosInf c = False"
| "flt NegInf c = True"
| "flt NaN c = False"

text \<open>\<open>std::round\<close>: to the nearest integer, halfway cases away from zero.\<close>

definition round_away :: "rat \<Rightarrow> int" where
  "round_away q = (if q \<ge> 0 then \<lfloor>q + 1 / 2\<rfloor> else - \<lfloor>- q + 1 / 2\<rfloor>)"

record Date =
  d_year :: "16 word"
  d_month :: "8 word"
  d_day :: "8 word"

record Time =
  t_hour :: "8 word"
  t_minute :: "8 word"
  t_sec :: "8 word"
  t_microsec :: "32 word"

record DateTime =
  dt_year :: "16 word"
  dt_month :: "8 word"
  dt_day :: "8 word"
  dt_hour :: "8 word"
  dt_minute :: "8 word"
  dt_sec :: "8 word"
  dt_microsec :: "32 word"

record Duration =
  du_seconds :: "64 word"
  du_microseconds :: "32 word"
  du_months :: "32 word"

text \<open>
  A geography value as the writer sees it: the code of \<open>v.shape()\<close> and the bytes of
  \<open>v.asWKB()\<close>, both computed by the geometry helper.
\<close>

record Geography =
  g_shape :: nat
  g_wkb :: "byte list"

text \<open>
  The runtime \<open>Value\<close> variant. \<open>NullValue bad\<close> carries \<open>isBadNull()\<close>. A \<open>ListV\<close>
  holds the elements of \<open>List::values\<close> in order; a \<open>SetV\<close> holds the elements of
  \<open>Set::values\<close> in the order the container iterates them, and \<open>size()\<close> is the
  number of elements held. \<open>OtherV\<close> stands for the remaining kinds (vertex, edge,
  path, map, data set, empty).
\<close>

datatype Value =
    NullValue bool | BoolV bool | IntV "64 word" | FloatV fval | StrV "byte list"
  | DateV Date | TimeV Time | DateTimeV DateTime | GeographyV Geography
  | DurationV Duration | ListV "Value list" | SetV "Value list" | OtherV

datatype ValueType =
    T_NULLVALUE | T_BOOL | T_INT | T_FLOAT | T_STRING | T_DATE | T_TIME | T_DATETIME
  | T_GEOGRAPHY | T_DURATION | T_LIST | T_SET | T_OTHER

fun valueType :: "Value \<Rightarrow> ValueType" where
  "valueType (NullValue _) = T_NULLVALUE"
| "valueType (BoolV _) = T_BOOL"
| "valueType (IntV _) = T_INT"
| "valueType (FloatV _) = T_FLOAT"
| "valueType (StrV _) = T_STRING"
| "valueType (DateV _) = T_DATE"
| "valueType (TimeV _) = T_TIME"
| "valueType (DateTimeV _) = T_DATETIME"
| "valueType (GeographyV _) = T_GEOGRAPHY"
| "valueType (DurationV _) = T_DURATION"
| "valueType (ListV _) = T_LIST"
| "valueType (SetV _) = T_SET"
| "valueType OtherV = T_OTHER"

text \<open>
  One field of the schema provider. \<open>defaultValue\<close> is \<open>None\<close> when the field has no
  default expression, and otherwise the literal that the expression evaluator returns
  for it in the default-value context.
\<close>

record Field =
  ftype :: PropertyType
  foffset :: nat
  fsize :: nat
  nullable :: bool
  nullFlagPos :: nat
  defaultValue :: "Value option"
  geoShape :: GeoShape

record Schema =
  version :: int
  fieldList :: "Field list"
  schemaSize :: nat
  numNullableFields :: nat

definition hasDefault :: "Field \<Rightarrow> bool" where
  "hasDefault f = (defaultValue f \<noteq> None)"

text \<open>
  What the writer takes from outside this file: the timestamp validator
  \<open>TimeUtils::toTimestamp\<close>, the IEEE 754 encodings of a value converted to \<open>float\<close>
  and to \<open>double\<close>, the integer that a conversion from a floating-point value
  outside the destination's range leaves behind (undefined in C++), and the equality
  of \<open>Value\<close> by which a \<open>std::unordered_set<Value>\<close> tells whether it holds a value
  (the hash and \<open>operator==\<close> of \<open>Value\<close>): \<open>sameValue env x y\<close> when a set that holds
  \<open>x\<close> finds \<open>y\<close>.
\<close>

record Env =
  toTimestamp :: "int \<Rightarrow> int option"
  float_bits :: "fval \<Rightarrow> 32 word"
  double_bits :: "fval \<Rightarrow> 64 word"
  undef_cast :: "nat \<Rightarrow> fval \<Rightarrow> int"
  sameValue :: "Value \<Rightarrow> Value \<Rightarrow> bool"

subsection \<open>Writer state\<close>

record Writer =
  buf :: "byte list"
  headerLen :: nat
  numNullBytes :: nat
  approxStrLen :: "64 word"
  finished :: bool
  outOfSpaceStr :: bool
  isSet :: "bool list"
  strList :: "byte list list"

subsection \<open>The header (constructor from a schema)\<close>

text \<open>
  The chain of comparisons of the constructor: the header byte and \<open>headerLen_\<close> for a
  positive version, \<open>LOG(FATAL)\<close> in the last branch.
\<close>

definition versionHeader :: "int \<Rightarrow> Fatal + (byte \<times> nat)" where
  "versionHeader ver =
     (if ver \<le> 0x00FF then Inr (0x09, 2)
      else if ver < 0x00FFFF then Inr (0x0A, 3)
      else if ver < 0x00FFFFFF then Inr (0x0B, 4)
      else if ver < 0x00FFFFFFFF then Inr (0x0C, 5)
      else if ver < 0x00FFFFFFFFFF then Inr (0x0D, 6)
      else if ver < 0x00FFFFFFFFFFFF then Inr (0x0E, 7)
      else if ver < 0x00FFFFFFFFFFFFFF then Inr (0x0F, 8)
      else Inl SchemaVersionTooBig)"

text \<open>
  The bytes in the buffer after the header has been appended, with \<open>headerLen_\<close>:
  for \<open>ver > 0\<close> the header byte followed by \<open>buf_[0] & 0x07\<close> bytes of \<open>ver\<close>,
  otherwise the single byte \<open>0x08\<close>.
\<close>

definition encodeHeader :: "int \<Rightarrow> Fatal + (byte list \<times> nat)" where
  "encodeHeader ver =
     (if ver > 0 then
        (case versionHeader ver of
           Inl e \<Rightarrow> Inl e
         | Inr (header, hlen) \<Rightarrow> Inr (header # le_bytes (unat (header AND 0x07)) ver, hlen))
      else Inr ([0x08], 1))"

text \<open>\<open>buf_.resize(n, 0)\<close>.\<close>

definition resize :: "byte list \<Rightarrow> nat \<Rightarrow> byte list" where
  "resize b n = take n b @ replicate (n - length b) 0"

definition nullBytesFor :: "nat \<Rightarrow> nat" where
  "nullBytesFor numNullables = (if numNullables > 0 then drop_bit 3 (numNullables - 1) + 1 else 0)"

definition RowWriterV2 :: "Schema \<Rightarrow> Fatal + Writer" where
  "RowWriterV2 sch =
     (case encodeHeader (version sch) of
        Inl e \<Rightarrow> Inl e
      | Inr (hdr, hlen) \<Rightarrow>
          (let nnb = nullBytesFor (numNullableFields sch)
           in Inr \<lparr> buf = resize hdr (hlen + nnb + schemaSize sch),
                     headerLen = hlen,
                     numNullBytes = nnb,
                     approxStrLen = 0,
                     finished = False,
                     outOfSpaceStr = False,
                     isSet = replicate (length (fieldList sch)) False,
                     strList = [] \<rparr>))"

subsection \<open>Reseeding from an encoded record\<close>

text \<open>
  \<open>buf_[i]\<close> on a \<open>std::string\<close>: the byte at \<open>i\<close>, and the terminating zero at
  \<open>i = size()\<close>. (Reading further is undefined in C++; the model reads zero.)
\<close>

definition byteAt :: "byte list \<Rightarrow> nat \<Rightarrow> byte" where
  "byteAt b i = (if i < length b then b ! i else 0)"

text \<open>
  \<open>encoded.substr(0, len - sizeof(int64_t))\<close>: the count is computed in \<open>size_t\<close>,
  so for \<open>len < 8\<close> it wraps to a huge number and \<open>substr\<close> returns the whole string.
\<close>

definition stripTimestamp :: "byte list \<Rightarrow> byte list" where
  "stripTimestamp encoded =
     (let len = length encoded
      in if len \<ge> 8 then take (len - 8) encoded else encoded)"

text \<open>
  \<open>processV2EncodedStr\<close>, on the writer whose \<open>buf_\<close> holds the stripped record.
  \<open>isSet_\<close> is empty when it is called, so \<open>resize(n, true)\<close> makes every entry true.
  \<open>approxStrLen_\<close> is computed in \<open>size_t\<close>, here a 64-bit word.
\<close>

definition processV2EncodedStr :: "Schema \<Rightarrow> byte list \<Rightarrow> Fatal + Writer" where
  "processV2EncodedStr sch b =
     (if byteAt b 0 AND 0x18 \<noteq> 0x08 then Inl BadSignature
      else
        let verBytes = unat (byteAt b 0 AND 0x07);
            ver = int (le_val (take verBytes (drop 1 b)))
        in if ver \<noteq> version sch then Inl SchemaVersionMismatch
           else
             let hlen = verBytes + 1;
                 nnb = nullBytesFor (numNullableFields sch)
             in Inr \<lparr> buf = b,
                       headerLen = hlen,
                       numNullBytes = nnb,
                       approxStrLen = of_nat (length b) - of_nat hlen - of_nat nnb
                                      - of_nat (schemaSize sch) - 8,
                       finished = False,
                       outOfSpaceStr = False,
                       isSet = replicate (length (fieldList sch)) True,
                       strList = [] \<rparr>)"

definition RowWriterV2_encoded :: "Schema \<Rightarrow> byte list \<Rightarrow> Fatal + Writer" where
  "RowWriterV2_encoded sch encoded = processV2EncodedStr sch (stripTimestamp encoded)"

subsection \<open>Null flags\<close>

definition orBits :: "byte list" where
  "orBits = [0x80, 0x40, 0x20, 0x10, 0x08, 0x04, 0x02, 0x01]"

definition andBits :: "byte list" where
  "andBits = [0x7F, 0xBF, 0xDF, 0xEF, 0xF7, 0xFB, 0xFD, 0xFE]"

definition setNullBit :: "nat \<Rightarrow> Writer \<Rightarrow> Writer" where
  "setNullBit pos w =
     (let offset = headerLen w + drop_bit 3 pos
      in w\<lparr>buf := (buf w)[offset := byteAt (buf w) offset OR orBits ! (pos mod 8)]\<rparr>)"

definition clearNullBit :: "nat \<Rightarrow> Writer \<Rightarrow> Writer" where
  "clearNullBit pos w =
     (let offset = headerLen w + drop_bit 3 pos
      in w\<lparr>buf := (buf w)[offset := byteAt (buf w) offset AND andBits ! (pos mod 8)]\<rparr>)"

definition checkNullBit :: "nat \<Rightarrow> Writer \<Rightarrow> bool" where
  "checkNullBit pos w =
     (let offset = headerLen w + drop_bit 3 pos
      in byteAt (buf w) offset AND orBits ! (pos mod 8) \<noteq> 0)"

definition setNull :: "Schema \<Rightarrow> int \<Rightarrow> Writer \<Rightarrow> Fatal + WriteResult \<times> Writer" where
  "setNull sch index w =
     (if finished w then Inl AlreadyFinished
      else if index < 0 \<or> nat index \<ge> length (fieldList sch) then Inr (UNKNOWN_FIELD, w)
      else
        let field = fieldList sch ! nat index
        in if \<not> nullable field then Inr (NOT_NULLABLE, w)
           else
             let w1 = setNullBit (nullFlagPos field) w
             in Inr (SUCCEEDED, w1\<lparr>isSet := (isSet w1)[nat index := True]\<rparr>))"

subsection \<open>Typed writers for the fixed region\<close>

text \<open>The slot of a field in the buffer.\<close>

definition slotOffset :: "Writer \<Rightarrow> Field \<Rightarrow> nat" where
  "slotOffset w field = headerLen w + numNullBytes w + foffset field"

text \<open>
  The end of every typed writer: clear the null flag of a nullable field, mark the
  field as set.
\<close>

definition markSet :: "Field \<Rightarrow> nat \<Rightarrow> Writer \<Rightarrow> Writer" where
  "markSet field index w =
     (let w1 = (if nullable field then clearNullBit (nullFlagPos field) w else w)
      in w1\<lparr>isSet := (isSet w1)[index := True]\<rparr>)"

text \<open>
  A typed writer whose \<open>switch\<close> either returns an error or stores bytes at the slot:
  the stored bytes are computed by one function per source type below.
\<close>

definition storeFixed ::
  "Schema \<Rightarrow> nat \<Rightarrow> (PropertyType \<Rightarrow> WriteResult + byte list) \<Rightarrow> Writer \<Rightarrow> WriteResult \<times> Writer" where
  "storeFixed sch index enc w =
     (let field = fieldList sch ! index;
          offset = slotOffset w field
      in case enc (ftype field) of
           Inl r \<Rightarrow> (r, w)
         | Inr bytes \<Rightarrow>
             (SUCCEEDED, markSet field index (w\<lparr>buf := memcpy_at (buf w) offset bytes\<rparr>)))"

text \<open>\<open>write(ssize_t, bool)\<close>, with the stores in the order of the source.\<close>

definition b2byte :: "bool \<Rightarrow> byte" where
  "b2byte v = (if v then 0x01 else 0)"

definition write_bool :: "Schema \<Rightarrow> nat \<Rightarrow> bool \<Rightarrow> Writer \<Rightarrow> WriteResult \<times> Writer" where
  "write_bool sch index v w =
     (let field = fieldList sch ! index;
          offset = slotOffset w field;
          b = buf w;
          int16 = (\<lambda>b. b[offset + 1 := 0, offset + 0 := b2byte v]);
          int32 = (\<lambda>b. int16 (b[offset + 3 := 0, offset + 2 := 0]));
          int64 = (\<lambda>b. int32 (b[offset + 7 := 0, offset + 6 := 0, offset + 5 := 0, offset + 4 := 0]))
      in case (case ftype field of
                 BOOL \<Rightarrow> Some (b[offset := b2byte v])
               | INT8 \<Rightarrow> Some (b[offset := b2byte v])
               | INT64 \<Rightarrow> Some (int64 b)
               | INT32 \<Rightarrow> Some (int32 b)
               | INT16 \<Rightarrow> Some (int16 b)
               | _ \<Rightarrow> None) of
           None \<Rightarrow> (TYPE_MISMATCH, w)
         | Some b' \<Rightarrow> (SUCCEEDED, markSet field index (w\<lparr>buf := b'\<rparr>)))"

text \<open>
  The conversion of a rounded floating-point value to a signed integer of \<open>bits\<close>
  bits. Outside the range of the destination (and for NaN) the conversion is undefined
  in C++: the model takes what is left behind from \<open>undef_cast\<close>.
\<close>

definition castToInt :: "Env \<Rightarrow> nat \<Rightarrow> fval \<Rightarrow> int" where
  "castToInt env bits v =
     (case v of
        Finite q \<Rightarrow>
          (let r = round_away q
           in if - (2 ^ (bits - 1)) \<le> r \<and> r < 2 ^ (bits - 1) then r else undef_cast env bits v)
      | _ \<Rightarrow> undef_cast env bits v)"

text \<open>
  The \<open>switch\<close> of \<open>write(ssize_t, float)\<close>. The bounds of INT32 and INT64 are
  \<open>static_cast<float>\<close> of the integer limits: \<open>2^31\<close> and \<open>2^63\<close> for the maxima
  (the nearest \<open>float\<close>s), the minima are exact.
\<close>

definition float_bytes :: "Env \<Rightarrow> fval \<Rightarrow> PropertyType \<Rightarrow> WriteResult + byte list" where
  "float_bytes env v t =
     (case t of
        INT8 \<Rightarrow> if fgt v 127 \<or> flt v (- 128) then Inl OUT_OF_RANGE
                else Inr (le_bytes 1 (castToInt env 8 v))
      | INT16 \<Rightarrow> if fgt v 32767 \<or> flt v (- 32768) then Inl OUT_OF_RANGE
                 else Inr (le_bytes 2 (castToInt env 16 v))
      | INT32 \<Rightarrow> if fgt v 2147483648 \<or> flt v (- 2147483648) then Inl OUT_OF_RANGE
                 else Inr (le_bytes 4 (castToInt env 32 v))
      | INT64 \<Rightarrow> if fgt v 9223372036854775808 \<or> flt v (- 9223372036854775808)
                 then Inl OUT_OF_RANGE
                 else Inr (le_bytes 8 (castToInt env 64 v))
      | FLOAT \<Rightarrow> Inr (le_bytes 4 (uint (float_bits env v)))
      | DOUBLE \<Rightarrow> Inr (le_bytes 8 (uint (double_bits env v)))
      | _ \<Rightarrow> Inl TYPE_MISMATCH)"

definition write_float :: "Env \<Rightarrow> Schema \<Rightarrow> nat \<Rightarrow> fval \<Rightarrow> Writer \<Rightarrow> WriteResult \<times> Writer" where
  "write_float env sch index v w = storeFixed sch index (float_bytes env v) w"

text \<open>
  The \<open>switch\<close> of \<open>write(ssize_t, double)\<close>. The INT32 limits are exact in a
  \<open>double\<close>; the INT64 maximum becomes \<open>2^63\<close>; the FLOAT bound is
  \<open>std::numeric_limits<float>::max()\<close>, that is \<open>2^128 - 2^104\<close>.
\<close>

definition FLT_MAX :: rat where
  "FLT_MAX = 2 ^ 128 - 2 ^ 104"

definition double_bytes :: "Env \<Rightarrow> fval \<Rightarrow> PropertyType \<Rightarrow> WriteResult + byte list" where
  "double_bytes env v t =
     (case t of
        INT8 \<Rightarrow> if fgt v 127 \<or> flt v (- 128) then Inl OUT_OF_RANGE
                else Inr (le_bytes 1 (castToInt env 8 v))
      | INT16 \<Rightarrow> if fgt v 32767 \<or> flt v (- 32768) then Inl OUT_OF_RANGE
                 else Inr (le_bytes 2 (castToInt env 16 v))
      | INT32 \<Rightarrow> if fgt v 2147483647 \<or> flt v (- 2147483648) then Inl OUT_OF_RANGE
                 else Inr (le_bytes 4 (castToInt env 32 v))
      | INT64 \<Rightarrow> if fgt v 9223372036854775808 \<or> flt v (- 9223372036854775808)
                 then Inl OUT_OF_RANGE
                 else Inr (le_bytes 8 (castToInt env 64 v))
      | FLOAT \<Rightarrow> if fgt v FLT_MAX \<or> flt v (- FLT_MAX) then Inl OUT_OF_RANGE
                 else Inr (le_bytes 4 (uint (float_bits env v)))
      | DOUBLE \<Rightarrow> Inr (le_bytes 8 (uint (double_bits env v)))
      | _ \<Rightarrow> Inl TYPE_MISMATCH)"

definition write_double :: "Env \<Rightarrow> Schema \<Rightarrow> nat \<Rightarrow> fval \<Rightarrow> Writer \<Rightarrow> WriteResult \<times> Writer" where
  "write_double env sch index v w = storeFixed sch index (double_bytes env v) w"

text \<open>
  The integer writers. The source value is the signed integer \<open>v\<close> (the unsigned
  overloads cast to the signed type of the same width and call these). A store into a
  \<open>float\<close> or \<open>double\<close> field converts the integer first.
\<close>

definition int8_bytes :: "Env \<Rightarrow> 8 word \<Rightarrow> PropertyType \<Rightarrow> WriteResult + byte list" where
  "int8_bytes env v t =
     (case t of
        BOOL \<Rightarrow> Inr [if v = 0 then 0x00 else 0x01]
      | INT8 \<Rightarrow> Inr (le_bytes 1 (sint v))
      | INT16 \<Rightarrow> Inr (le_bytes 2 (sint v))
      | INT32 \<Rightarrow> Inr (le_bytes 4 (sint v))
      | INT64 \<Rightarrow> Inr (le_bytes 8 (sint v))
      | FLOAT \<Rightarrow> Inr (le_bytes 4 (uint (float_bits env (Finite (of_int (sint v))))))
      | DOUBLE \<Rightarrow> Inr (le_bytes 8 (uint (double_bits env (Finite (of_int (sint v))))))
      | _ \<Rightarrow> Inl TYPE_MISMATCH)"

definition write_int8 :: "Env \<Rightarrow> Schema \<Rightarrow> nat \<Rightarrow> 8 word \<Rightarrow> Writer \<Rightarrow> WriteResult \<times> Writer" where
  "write_int8 env sch index v w = storeFixed sch index (int8_bytes env v) w"

definition int16_bytes :: "Env \<Rightarrow> 16 word \<Rightarrow> PropertyType \<Rightarrow> WriteResult + byte list" where
  "int16_bytes env v t =
     (case t of
        BOOL \<Rightarrow> Inr [if v = 0 then 0x00 else 0x01]
      | INT8 \<Rightarrow> if sint v > 127 \<or> sint v < - 128 then Inl OUT_OF_RANGE
                else Inr (le_bytes 1 (sint v))
      | INT16 \<Rightarrow> Inr (le_bytes 2 (sint v))
      | INT32 \<Rightarrow> Inr (le_bytes 4 (sint v))
      | INT64 \<Rightarrow> Inr (le_bytes 8 (sint v))
      | FLOAT \<Rightarrow> Inr (le_bytes 4 (uint (float_bits env (Finite (of_int (sint v))))))
      | DOUBLE \<Rightarrow> Inr (le_bytes 8 (uint (double_bits env (Finite (of_int (sint v))))))
      | _ \<Rightarrow> Inl TYPE_MISMATCH)"

definition write_int16 :: "Env \<Rightarrow> Schema \<Rightarrow> nat \<Rightarrow> 16 word \<Rightarrow> Writer \<Rightarrow> WriteResult \<times> Writer" where
  "write_int16 env sch index v w = storeFixed sch index (int16_bytes env v) w"

text \<open>A validated timestamp is stored as 64 bits whatever the width of the source.\<close>

definition timestamp_bytes :: "Env \<Rightarrow> int \<Rightarrow> WriteResult + byte list" where
  "timestamp_bytes env v =
     (case toTimestamp env v of
        None \<Rightarrow> Inl OUT_OF_RANGE
      | Some ts \<Rightarrow> Inr (le_bytes 8 ts))"

definition int32_bytes :: "Env \<Rightarrow> 32 word \<Rightarrow> PropertyType \<Rightarrow> WriteResult + byte list" where
  "int32_bytes env v t =
     (case t of
        BOOL \<Rightarrow> Inr [if v = 0 then 0x00 else 0x01]
      | INT8 \<Rightarrow> if sint v > 127 \<or> sint v < - 128 then Inl OUT_OF_RANGE
                else Inr (le_bytes 1 (sint v))
      | INT16 \<Rightarrow> if sint v > 32767 \<or> sint v < - 32768 then Inl OUT_OF_RANGE
                 else Inr (le_bytes 2 (sint v))
      | INT32 \<Rightarrow> Inr (le_bytes 4 (sint v))
      | TIMESTAMP \<Rightarrow> timestamp_bytes env (sint v)
      | INT64 \<Rightarrow> Inr (le_bytes 8 (sint v))
      | FLOAT \<Rightarrow> Inr (le_bytes 4 (uint (float_bits env (Finite (of_int (sint v))))))
      | DOUBLE \<Rightarrow> Inr (le_bytes 8 (uint (double_bits env (Finite (of_int (sint v))))))
      | _ \<Rightarrow> Inl TYPE_MISMATCH)"

definition write_int32 :: "Env \<Rightarrow> Schema \<Rightarrow> nat \<Rightarrow> 32 word \<Rightarrow> Writer \<Rightarrow> WriteResult \<times> Writer" where
  "write_int32 env sch index v w = storeFixed sch index (int32_bytes env v) w"

definition int64_bytes :: "Env \<Rightarrow> 64 word \<Rightarrow> PropertyType \<Rightarrow> WriteResult + byte list" where
  "int64_bytes env v t =
     (case t of
        BOOL \<Rightarrow> Inr [if v = 0 then 0x00 else 0x01]
      | INT8 \<Rightarrow> if sint v > 127 \<or> sint v < - 128 then Inl OUT_OF_RANGE
                else Inr (le_bytes 1 (sint v))
      | INT16 \<Rightarrow> if sint v > 32767 \<or> sint v < - 32768 then Inl OUT_OF_RANGE
                 else Inr (le_bytes 2 (sint v))
      | INT32 \<Rightarrow> if sint v > 2147483647 \<or> sint v < - 2147483648 then Inl OUT_OF_RANGE
                 else Inr (le_bytes 4 (sint v))
      | TIMESTAMP \<Rightarrow> timestamp_bytes env (sint v)
      | INT64 \<Rightarrow> Inr (le_bytes 8 (sint v))
      | FLOAT \<Rightarrow> Inr (le_bytes 4 (uint (float_bits env (Finite (of_int (sint v))))))
      | DOUBLE \<Rightarrow> Inr (le_bytes 8 (uint (double_bits env (Finite (of_int (sint v))))))
      | _ \<Rightarrow> Inl TYPE_MISMATCH)"

definition write_int64 :: "Env \<Rightarrow> Schema \<Rightarrow> nat \<Rightarrow> 64 word \<Rightarrow> Writer \<Rightarrow> WriteResult \<times> Writer" where
  "write_int64 env sch index v w = storeFixed sch index (int64_bytes env v) w"

text \<open>Dates, times and durations: the members in order, little-endian, packed.\<close>

definition date_bytes :: "Date \<Rightarrow> PropertyType \<Rightarrow> WriteResult + byte list" where
  "date_bytes v t =
     (case t of
        DATE \<Rightarrow> Inr (le_bytes 2 (sint (d_year v)) @ [d_month v, d_day v])
      | _ \<Rightarrow> Inl TYPE_MISMATCH)"

definition write_Date :: "Schema \<Rightarrow> nat \<Rightarrow> Date \<Rightarrow> Writer \<Rightarrow> WriteResult \<times> Writer" where
  "write_Date sch index v w = storeFixed sch index (date_bytes v) w"

definition time_bytes :: "Time \<Rightarrow> PropertyType \<Rightarrow> WriteResult + byte list" where
  "time_bytes v t =
     (case t of
        TIME \<Rightarrow> Inr ([t_hour v, t_minute v, t_sec v] @ le_bytes 4 (sint (t_microsec v)))
      | _ \<Rightarrow> Inl TYPE_MISMATCH)"

definition write_Time :: "Schema \<Rightarrow> nat \<Rightarrow> Time \<Rightarrow> Writer \<Rightarrow> WriteResult \<times> Writer" where
  "write_Time sch index v w = storeFixed sch index (time_bytes v) w"

definition datetime_bytes :: "DateTime \<Rightarrow> PropertyType \<Rightarrow> WriteResult + byte list" where
  "datetime_bytes v t =
     (case t of
        DATETIME \<Rightarrow>
          Inr (le_bytes 2 (sint (dt_year v))
               @ [dt_month v, dt_day v, dt_hour v, dt_minute v, dt_sec v]
               @ le_bytes 4 (sint (dt_microsec v)))
      | _ \<Rightarrow> Inl TYPE_MISMATCH)"

definition write_DateTime :: "Schema \<Rightarrow> nat \<Rightarrow> DateTime \<Rightarrow> Writer \<Rightarrow> WriteResult \<times> Writer" where
  "write_DateTime sch index v w = storeFixed sch index (datetime_bytes v) w"

definition duration_bytes :: "Duration \<Rightarrow> PropertyType \<Rightarrow> WriteResult + byte list" where
  "duration_bytes v t =
     (case t of
        DURATION \<Rightarrow>
          Inr (le_bytes 8 (sint (du_seconds v))
               @ le_bytes 4 (sint (du_microseconds v))
               @ le_bytes 4 (sint (du_months v)))
      | _ \<Rightarrow> Inl TYPE_MISMATCH)"

definition write_Duration :: "Schema \<Rightarrow> nat \<Rightarrow> Duration \<Rightarrow> Writer \<Rightarrow> WriteResult \<times> Writer" where
  "write_Duration sch index v w = storeFixed sch index (duration_bytes v) w"

subsection \<open>Strings and geographies\<close>

text \<open>
  Modelled from the spec: \<open>utf8CutSize\<close> (codec/Common.h) is not among the sources.
  The spec describes it as the safe cut that backs off from the declared length until
  no continuation byte (\<open>10xxxxxx\<close>) is split.
\<close>

fun utf8CutSize :: "byte list \<Rightarrow> nat \<Rightarrow> nat" where
  "utf8CutSize v 0 = 0"
| "utf8CutSize v (Suc n) =
     (if Suc n < length v \<and> (v ! Suc n) AND 0xC0 = 0x80 then utf8CutSize v n else Suc n)"

text \<open>
  \<open>strncpy(dst, src, len)\<close> writes exactly \<open>len\<close> bytes: those of \<open>src\<close> up to its
  first zero byte, then zeros.
\<close>

definition strncpy_bytes :: "byte list \<Rightarrow> nat \<Rightarrow> byte list" where
  "strncpy_bytes src len =
     (let p = takeWhile (\<lambda>c. c \<noteq> 0) (take len src)
      in p @ replicate (len - length p) 0)"

text \<open>
  The STRING case of \<open>write(ssize_t, folly::StringPiece, bool)\<close>, which the GEOGRAPHY
  case falls through to.
\<close>

definition writeVarStr :: "Field \<Rightarrow> nat \<Rightarrow> byte list \<Rightarrow> Writer \<Rightarrow> Writer" where
  "writeVarStr field index v w =
     (let offset = slotOffset w field;
          w1 = (if isSet w ! index then w\<lparr>outOfSpaceStr := True\<rparr> else w);
          (strOffset, strLen, w2) =
            (if outOfSpaceStr w1
             then (let l = strList w1 @ [v]
                   in (0, int (length l) - 1, w1\<lparr>strList := l\<rparr>))
             else (int (length (buf w1)), int (length v), w1\<lparr>buf := buf w1 @ v\<rparr>));
          b3 = memcpy_at (memcpy_at (buf w2) offset (le_bytes 4 strOffset))
                 (offset + 4) (le_bytes 4 strLen)
      in w2\<lparr>buf := b3, approxStrLen := approxStrLen w2 + of_nat (length v)\<rparr>)"

definition writeFixedStr :: "Field \<Rightarrow> byte list \<Rightarrow> Writer \<Rightarrow> Writer" where
  "writeFixedStr field v w =
     (let offset = slotOffset w field;
          len = (if length v > fsize field then utf8CutSize v (fsize field) else length v);
          b1 = memcpy_at (buf w) offset (strncpy_bytes v len);
          b2 = (if len < fsize field
                then memcpy_at b1 (offset + len) (replicate (fsize field - len) 0)
                else b1)
      in w\<lparr>buf := b2\<rparr>)"

definition write_string ::
  "Schema \<Rightarrow> nat \<Rightarrow> byte list \<Rightarrow> bool \<Rightarrow> Writer \<Rightarrow> WriteResult \<times> Writer" where
  "write_string sch index v isWKB w =
     (let field = fieldList sch ! index
      in case ftype field of
           GEOGRAPHY \<Rightarrow>
             if \<not> isWKB then (TYPE_MISMATCH, w)
             else (SUCCEEDED, markSet field index (writeVarStr field index v w))
         | STRING \<Rightarrow> (SUCCEEDED, markSet field index (writeVarStr field index v w))
         | FIXED_STRING \<Rightarrow> (SUCCEEDED, markSet field index (writeFixedStr field v w))
         | _ \<Rightarrow> (TYPE_MISMATCH, w))"

definition write_Geography ::
  "Schema \<Rightarrow> nat \<Rightarrow> Geography \<Rightarrow> Writer \<Rightarrow> WriteResult \<times> Writer" where
  "write_Geography sch index v w =
     (let field = fieldList sch ! index
      in if geoShape field \<noteq> ANY \<and> shapeCode (geoShape field) \<noteq> g_shape v
         then (TYPE_MISMATCH, w)
         else write_string sch index (g_wkb v) True w)"

subsection \<open>Lists and sets\<close>

text \<open>
  \<open>writeItem\<close>. The getters of \<open>Value\<close> are only defined on a value of their own
  kind; \<open>writeList\<close> and \<open>writeSet\<close> call \<open>writeItem\<close> only after every item has been
  found to be of kind \<open>valueType\<close>, and the remaining combinations are answered here
  like the \<open>default\<close> branch.
\<close>

fun writeItem :: "Env \<Rightarrow> Value \<Rightarrow> ValueType \<Rightarrow> byte list \<Rightarrow> WriteResult \<times> byte list" where
  "writeItem env (StrV str) T_STRING buffer =
     (SUCCEEDED, buffer @ le_bytes 4 (int (length str)) @ str)"
| "writeItem env (IntV i) T_INT buffer = (SUCCEEDED, buffer @ le_bytes 4 (sint i))"
| "writeItem env (FloatV f) T_FLOAT buffer =
     (SUCCEEDED, buffer @ le_bytes 4 (uint (float_bits env f)))"
| "writeItem env item vt buffer = (TYPE_MISMATCH, buffer)"

text \<open>The second loop of \<open>writeList\<close>.\<close>

fun writeListItems :: "Env \<Rightarrow> Value list \<Rightarrow> ValueType \<Rightarrow> byte list \<Rightarrow> WriteResult \<times> byte list" where
  "writeListItems env [] vt buffer = (SUCCEEDED, buffer)"
| "writeListItems env (item # rest) vt buffer =
     (case writeItem env item vt buffer of
        (SUCCEEDED, buffer') \<Rightarrow> writeListItems env rest vt buffer'
      | (result, buffer') \<Rightarrow> (result, buffer'))"

definition writeList :: "Env \<Rightarrow> Value list \<Rightarrow> ValueType \<Rightarrow> byte list \<Rightarrow> WriteResult \<times> byte list" where
  "writeList env container vt buffer =
     (if list_ex (\<lambda>item. valueType item \<noteq> vt) container then (TYPE_MISMATCH, buffer)
      else writeListItems env container vt buffer)"

text \<open>
  The second loop of \<open>writeSet\<close>; \<open>serialized\<close> holds the items written so far, and
  \<open>serialized.find(item)\<close> finds \<open>item\<close> when it is the same value as one of them.
\<close>

fun writeSetItems ::
  "Env \<Rightarrow> Value list \<Rightarrow> ValueType \<Rightarrow> Value list \<Rightarrow> byte list \<Rightarrow> WriteResult \<times> byte list" where
  "writeSetItems env [] vt serialized buffer = (SUCCEEDED, buffer)"
| "writeSetItems env (item # rest) vt serialized buffer =
     (if list_ex (\<lambda>x. sameValue env x item) serialized
      then writeSetItems env rest vt serialized buffer
      else
        (case writeItem env item vt buffer of
           (SUCCEEDED, buffer') \<Rightarrow> writeSetItems env rest vt (item # serialized) buffer'
         | (result, buffer') \<Rightarrow> (result, buffer')))"

definition writeSet :: "Env \<Rightarrow> Value list \<Rightarrow> ValueType \<Rightarrow> byte list \<Rightarrow> WriteResult \<times> byte list" where
  "writeSet env container vt buffer =
     (if list_ex (\<lambda>item. valueType item \<noteq> vt) container then (TYPE_MISMATCH, buffer)
      else writeSetItems env container vt [] buffer)"

definition listElemType :: "PropertyType \<Rightarrow> ValueType option" where
  "listElemType t =
     (if t = LIST_STRING then Some T_STRING
      else if t = LIST_INT then Some T_INT
      else if t = LIST_FLOAT then Some T_FLOAT
      else None)"

definition setElemType :: "PropertyType \<Rightarrow> ValueType option" where
  "setElemType t =
     (if t = SET_STRING then Some T_STRING
      else if t = SET_INT then Some T_INT
      else if t = SET_FLOAT then Some T_FLOAT
      else None)"

text \<open>
  \<open>write(ssize_t, const List&)\<close> and \<open>write(ssize_t, const Set&)\<close>: the count is
  appended to the buffer before the field type and the items are looked at.
\<close>

definition write_List :: "Env \<Rightarrow> Schema \<Rightarrow> nat \<Rightarrow> Value list \<Rightarrow> Writer \<Rightarrow> WriteResult \<times> Writer" where
  "write_List env sch index list w =
     (let field = fieldList sch ! index;
          offset = slotOffset w field;
          w1 = (if isSet w ! index then w\<lparr>outOfSpaceStr := True\<rparr> else w);
          listSize = int (length list);
          listOffset = int (length (buf w1));
          w2 = w1\<lparr>buf := buf w1 @ le_bytes 4 listSize\<rparr>
      in case listElemType (ftype field) of
           None \<Rightarrow> (TYPE_MISMATCH, w2)
         | Some vt \<Rightarrow>
             (case writeList env list vt (buf w2) of
                (SUCCEEDED, b3) \<Rightarrow>
                  (SUCCEEDED,
                   markSet field index (w2\<lparr>buf := memcpy_at b3 offset (le_bytes 4 listOffset)\<rparr>))
              | (result, b3) \<Rightarrow> (result, w2\<lparr>buf := b3\<rparr>)))"

definition write_Set :: "Env \<Rightarrow> Schema \<Rightarrow> nat \<Rightarrow> Value list \<Rightarrow> Writer \<Rightarrow> WriteResult \<times> Writer" where
  "write_Set env sch index st w =
     (let field = fieldList sch ! index;
          offset = slotOffset w field;
          w1 = (if isSet w ! index then w\<lparr>outOfSpaceStr := True\<rparr> else w);
          setSize = int (length st);
          setOffset = int (length (buf w1));
          w2 = w1\<lparr>buf := buf w1 @ le_bytes 4 setSize\<rparr>
      in case setElemType (ftype field) of
           None \<Rightarrow> (TYPE_MISMATCH, w2)
         | Some vt \<Rightarrow>
             (case writeSet env st vt (buf w2) of
                (SUCCEEDED, b3) \<Rightarrow>
                  (SUCCEEDED,
                   markSet field index (w2\<lparr>buf := memcpy_at b3 offset (le_bytes 4 setOffset)\<rparr>))
              | (result, b3) \<Rightarrow> (result, w2\<lparr>buf := b3\<rparr>)))"

subsection \<open>Values by kind\<close>

definition setValue ::
  "Env \<Rightarrow> Schema \<Rightarrow> int \<Rightarrow> Value \<Rightarrow> Writer \<Rightarrow> Fatal + WriteResult \<times> Writer" where
  "setValue env sch index val w =
     (if finished w then Inl AlreadyFinished
      else if index < 0 \<or> nat index \<ge> length (fieldList sch) then Inr (UNKNOWN_FIELD, w)
      else
        let i = nat index
        in case val of
             NullValue bad \<Rightarrow> if bad then Inr (TYPE_MISMATCH, w) else setNull sch index w
           | BoolV b \<Rightarrow> Inr (write_bool sch i b w)
           | IntV v \<Rightarrow> Inr (write_int64 env sch i v w)
           | FloatV f \<Rightarrow> Inr (write_double env sch i f w)
           | StrV s \<Rightarrow> Inr (write_string sch i s False w)
           | DateV d \<Rightarrow> Inr (write_Date sch i d w)
           | TimeV t \<Rightarrow> Inr (write_Time sch i t w)
           | DateTimeV dt \<Rightarrow> Inr (write_DateTime sch i dt w)
           | GeographyV g \<Rightarrow> Inr (write_Geography sch i g w)
           | DurationV du \<Rightarrow> Inr (write_Duration sch i du w)
           | ListV l \<Rightarrow> Inr (write_List env sch i l w)
           | SetV st \<Rightarrow> Inr (write_Set env sch i st w)
           | OtherV \<Rightarrow> Inr (TYPE_MISMATCH, w))"

subsection \<open>Finishing: defaults, out-of-space strings, timestamp\<close>

text \<open>The \<open>switch\<close> on the kind of the evaluated default in \<open>checkUnsetFields\<close>.\<close>

definition writeDefault ::
  "Env \<Rightarrow> Schema \<Rightarrow> nat \<Rightarrow> Field \<Rightarrow> Value \<Rightarrow> Writer \<Rightarrow> Fatal + WriteResult \<times> Writer" where
  "writeDefault env sch i field defVal w =
     (case defVal of
        NullValue bad \<Rightarrow> Inr (SUCCEEDED, setNullBit (nullFlagPos field) w)
      | BoolV b \<Rightarrow> Inr (write_bool sch i b w)
      | IntV v \<Rightarrow> Inr (write_int64 env sch i v w)
      | FloatV f \<Rightarrow> Inr (write_double env sch i f w)
      | StrV s \<Rightarrow> Inr (write_string sch i s False w)
      | DateV d \<Rightarrow> Inr (write_Date sch i d w)
      | TimeV t \<Rightarrow> Inr (write_Time sch i t w)
      | DateTimeV dt \<Rightarrow> Inr (write_DateTime sch i dt w)
      | GeographyV g \<Rightarrow> Inr (write_Geography sch i g w)
      | DurationV du \<Rightarrow> Inr (write_Duration sch i du w)
      | ListV l \<Rightarrow> Inr (write_List env sch i l w)
      | SetV st \<Rightarrow> Inr (write_Set env sch i st w)
      | OtherV \<Rightarrow> Inl UnsupportedDefault)"

text \<open>The body of the loop of \<open>checkUnsetFields\<close>, with the result \<open>r\<close>.\<close>

definition checkUnsetField ::
  "Env \<Rightarrow> Schema \<Rightarrow> nat \<Rightarrow> Writer \<Rightarrow> Fatal + WriteResult \<times> Writer" where
  "checkUnsetField env sch i w =
     (if \<not> isSet w ! i then
        let field = fieldList sch ! i
        in if \<not> nullable field \<and> \<not> hasDefault field then Inr (FIELD_UNSET, w)
           else
             (case defaultValue field of
                Some defVal \<Rightarrow> writeDefault env sch i field defVal w
              | None \<Rightarrow> Inr (SUCCEEDED, setNullBit (nullFlagPos field) w))
      else Inr (SUCCEEDED, w))"

fun checkUnsetLoop ::
  "Env \<Rightarrow> Schema \<Rightarrow> nat list \<Rightarrow> Writer \<Rightarrow> Fatal + WriteResult \<times> Writer" where
  "checkUnsetLoop env sch [] w = Inr (SUCCEEDED, w)"
| "checkUnsetLoop env sch (i # rest) w =
     (case checkUnsetField env sch i w of
        Inl e \<Rightarrow> Inl e
      | Inr (r, w') \<Rightarrow>
          if r \<noteq> SUCCEEDED then Inr (r, w') else checkUnsetLoop env sch rest w')"

definition checkUnsetFields :: "Env \<Rightarrow> Schema \<Rightarrow> Writer \<Rightarrow> Fatal + WriteResult \<times> Writer" where
  "checkUnsetFields env sch w = checkUnsetLoop env sch [0 ..< length (fieldList sch)] w"

text \<open>
  The body of the loop of \<open>processOutOfSpace\<close> for one field, on the buffer \<open>temp\<close>
  under construction. \<open>CHECK_LT(strLen, strList_.size())\<close> compares as unsigned, so a
  negative index fails it. Bytes that \<open>temp.append(&buf_[oldOffset], strLen)\<close> would
  read past the end of \<open>buf_\<close> (undefined in C++) are not appended in the model.
\<close>

definition processStr :: "Writer \<Rightarrow> Field \<Rightarrow> byte list \<Rightarrow> Fatal + byte list" where
  "processStr w field temp =
     (if ftype field \<noteq> STRING \<and> ftype field \<noteq> GEOGRAPHY then Inr temp
      else
        let offset = slotOffset w field;
            newOffset = int (length temp)
        in case (if nullable field \<and> checkNullBit (nullFlagPos field) w then Inr (0, 0, temp)
                 else
                   let oldOffset = load_int32 (buf w) offset;
                       strLen = load_int32 (buf w) (offset + 4)
                   in if oldOffset > 0
                      then Inr (newOffset, strLen,
                                temp @ take (nat strLen) (drop (nat oldOffset) (buf w)))
                      else if \<not> (0 \<le> strLen \<and> nat strLen < length (strList w))
                      then Inl BadStrListIndex
                      else Inr (newOffset, int (length (strList w ! nat strLen)),
                                temp @ strList w ! nat strLen)) of
             Inl e \<Rightarrow> Inl e
           | Inr (newOffset', strLen', temp') \<Rightarrow>
               Inr (memcpy_at (memcpy_at temp' offset (le_bytes 4 newOffset'))
                      (offset + 4) (le_bytes 4 strLen')))"

fun processStrs :: "Writer \<Rightarrow> Field list \<Rightarrow> byte list \<Rightarrow> Fatal + byte list" where
  "processStrs w [] temp = Inr temp"
| "processStrs w (field # rest) temp =
     (case processStr w field temp of
        Inl e \<Rightarrow> Inl e
      | Inr temp' \<Rightarrow> processStrs w rest temp')"

definition processOutOfSpace :: "Schema \<Rightarrow> Writer \<Rightarrow> Fatal + byte list" where
  "processOutOfSpace sch w =
     processStrs w (fieldList sch)
       (take (headerLen w + numNullBytes w + schemaSize sch) (buf w))"

text \<open>\<open>finish\<close>; \<open>ts\<close> is what the wall clock returns.\<close>

definition finish :: "Env \<Rightarrow> Schema \<Rightarrow> int \<Rightarrow> Writer \<Rightarrow> Fatal + WriteResult \<times> Writer" where
  "finish env sch ts w =
     (if finished w then Inl AlreadyFinished
      else
        case checkUnsetFields env sch w of
          Inl e \<Rightarrow> Inl e
        | Inr (res, w1) \<Rightarrow>
            if res \<noteq> SUCCEEDED then Inr (res, w1)
            else
              (case (if outOfSpaceStr w1 then processOutOfSpace sch w1 else Inr (buf w1)) of
                 Inl e \<Rightarrow> Inl e
               | Inr b \<Rightarrow> Inr (SUCCEEDED, w1\<lparr>buf := b @ le_bytes 8 ts, finished := True\<rparr>)))"

subsection \<open>Reading the buffer\<close>

text \<open>The \<open>n\<close> bytes of \<open>b\<close> from offset \<open>off\<close>.\<close>

definition slice :: "byte list \<Rightarrow> nat \<Rightarrow> nat \<Rightarrow> byte list" where
  "slice b off n = take n (drop off b)"

text \<open>The width in bytes of the integer types (\<open>sizeof\<close>).\<close>

definition intWidth :: "PropertyType \<Rightarrow> nat" where
  "intWidth t = (if t = INT16 then 2 else if t = INT32 then 4 else if t = INT64 then 8 else 1)"

subsection \<open>Examples\<close>

text \<open>
  An environment for the examples, none of which stores a floating-point value or
  converts one out of range: the validator accepts the non-negative timestamps, the
  encodings and the undefined conversion are constant. Two values are the same when
  they are equal, except that NaN is not the same as itself.
\<close>

definition exampleEnv :: Env where
  "exampleEnv =
     \<lparr> toTimestamp = (\<lambda>v. if 0 \<le> v then Some v else None),
       float_bits = (\<lambda>_. 0),
       double_bits = (\<lambda>_. 0),
       undef_cast = (\<lambda>_ _. 0),
       sameValue = (\<lambda>x y. x = y \<and> x \<noteq> FloatV NaN) \<rparr>"

text \<open>A field of the given type at offset 0: not nullable, no default.\<close>

definition plainField :: "PropertyType \<Rightarrow> nat \<Rightarrow> Field" where
  "plainField t n =
     \<lparr> ftype = t, foffset = 0, fsize = n, nullable = False, nullFlagPos = 0,
       defaultValue = None, geoShape = ANY \<rparr>"

text \<open>The schema of version 0 with this one field.\<close>

definition singleSchema :: "Field \<Rightarrow> Schema" where
  "singleSchema f =
     \<lparr> version = 0, fieldList = [f], schemaSize = fsize f,
       numNullableFields = (if nullable f then 1 else 0) \<rparr>"

text \<open>A writer over one 8-byte slot that holds stale bytes, every field set.\<close>

definition staleWriter :: Writer where
  "staleWriter =
     \<lparr> buf = [0x08, 0xFF, 0xFF, 0xFF, 0xFF, 0xFF, 0xFF, 0xFF, 0xFF],
       headerLen = 1, numNullBytes = 0, approxStrLen = 0, finished = False,
       outOfSpaceStr = False, isSet = [True], strList = [] \<rparr>"

text \<open>The inclusive limits of the integer types.\<close>

definition intMax :: "PropertyType \<Rightarrow> int" where
  "intMax t = 2 ^ (8 * intWidth t - 1) - 1"

definition intMin :: "PropertyType \<Rightarrow> int" where
  "intMin t = - (2 ^ (8 * intWidth t - 1))"

text \<open>The writer that the constructor returns for a schema of version 0 with one field of
  \<open>n\<close> bytes that is not nullable.\<close>

definition freshWriter :: "nat \<Rightarrow> Writer" where
  "freshWriter n =
     \<lparr> buf = 0x08 # replicate n 0, headerLen = 1, numNullBytes = 0, approxStrLen = 0,
       finished = False, outOfSpaceStr = False, isSet = [False], strList = [] \<rparr>"

text \<open>The latch at the head of the list and set writers.\<close>

definition latch :: "Writer \<Rightarrow> nat \<Rightarrow> Writer" where
  "latch w index = (if isSet w ! index then w\<lparr>outOfSpaceStr := True\<rparr> else w)"

text \<open>
  The element of a list or set payload as the format has it: a string is its length
  as a 32-bit integer and then its bytes, an integer its low 32 bits, a floating-point
  value its single-precision encoding; integers are little-endian.
\<close>

fun elementBytes :: "Env \<Rightarrow> Value \<Rightarrow> byte list" where
  "elementBytes env (StrV s) = le_bytes 4 (int (length s)) @ s"
| "elementBytes env (IntV i) = le_bytes 4 (uint (ucast i :: 32 word))"
| "elementBytes env (FloatV f) = le_bytes 4 (uint (float_bits env f))"
| "elementBytes env v = []"

text \<open>
  No element of \<open>xs\<close> is the same value as an element of \<open>seen\<close> or as an earlier
  element of \<open>xs\<close>.
\<close>

fun noRepeat :: "('a \<Rightarrow> 'a \<Rightarrow> bool) \<Rightarrow> 'a list \<Rightarrow> 'a list \<Rightarrow> bool" where
  "noRepeat same seen [] = True"
| "noRepeat same seen (x # xs) =
     (\<not> list_ex (\<lambda>y. same y x) seen \<and> noRepeat same (x # seen) xs)"

text \<open>A one-byte INT8 field, not nullable, whose default evaluates to NULL.\<close>

definition nullDefaultField :: Field where
  "nullDefaultField = (plainField INT8 1)\<lparr>defaultValue := Some (NullValue False)\<rparr>"

text \<open>The schema version that the header of a record carries.\<close>

definition headerVersion :: "byte list \<Rightarrow> int" where
  "headerVersion b = int (le_val (take (unat (byteAt b 0 AND 0x07)) (drop 1 b)))"

text \<open>
  An encoded record of the schema of version 0 with one STRING field: header, the slot
  \<open>(9, 10)\<close>, ten bytes of string, eight bytes of timestamp.
\<close>

definition exampleRecord :: "byte list" where
  "exampleRecord =
     [0x08, 9, 0, 0, 0, 10, 0, 0, 0] @
     [0x68, 0x65, 0x6C, 0x6C, 0x6F, 0x77, 0x6F, 0x72, 0x6C, 0x64] @
     [1, 2, 3, 4, 5, 6, 7, 8]"

subsection \<open>Sequences of calls\<close>

text \<open>
  Modelled from the spec: the public \<open>set(index, v)\<close> of RowWriterV2.h is not among the
  sources. As the spec has it for every setter, a call after \<open>finish()\<close> is a programming
  error and an unknown index fails with UNKNOWN_FIELD; otherwise the typed writer runs.
\<close>

definition setTyped ::
  "Schema \<Rightarrow> nat \<Rightarrow> (Writer \<Rightarrow> WriteResult \<times> Writer) \<Rightarrow> Writer \<Rightarrow> Fatal + WriteResult \<times> Writer" where
  "setTyped sch index wr w =
     (if finished w then Inl AlreadyFinished
      else if index \<ge> length (fieldList sch) then Inr (UNKNOWN_FIELD, w)
      else Inr (wr w))"

text \<open>
  One call of the caller. \<open>SetValue\<close> and \<open>SetNull\<close> are \<open>setValue\<close> and \<open>setNull\<close>; the
  others are \<open>set\<close> with a source type that \<open>setValue\<close> does not reach.
\<close>

datatype Op =
    SetValue int Value
  | SetNull int
  | SetInt8 nat "8 word"
  | SetInt16 nat "16 word"
  | SetInt32 nat "32 word"
  | SetFloat nat fval

fun applyOp :: "Env \<Rightarrow> Schema \<Rightarrow> Op \<Rightarrow> Writer \<Rightarrow> Fatal + WriteResult \<times> Writer" where
  "applyOp env sch (SetValue index v) w = setValue env sch index v w"
| "applyOp env sch (SetNull index) w = setNull sch index w"
| "applyOp env sch (SetInt8 index v) w = setTyped sch index (write_int8 env sch index v) w"
| "applyOp env sch (SetInt16 index v) w = setTyped sch index (write_int16 env sch index v) w"
| "applyOp env sch (SetInt32 index v) w = setTyped sch index (write_int32 env sch index v) w"
| "applyOp env sch (SetFloat index v) w = setTyped sch index (write_float env sch index v) w"

text \<open>
  A sequence of calls on one writer. A call that returns an error code leaves the
  writer usable, and the caller may go on; a fatal error ends the run.
\<close>

fun applyOps :: "Env \<Rightarrow> Schema \<Rightarrow> Op list \<Rightarrow> Writer \<Rightarrow> Fatal + Writer" where
  "applyOps env sch [] w = Inr w"
| "applyOps env sch (op # ops) w =
     (case applyOp env sch op w of
        Inl e \<Rightarrow> Inl e
      | Inr (r, w') \<Rightarrow> applyOps env sch ops w')"

text \<open>
  A new writer, a sequence of calls, \<open>finish\<close>: the emitted record, if the run comes
  that far and \<open>finish\<close> succeeds.
\<close>

definition emit :: "Env \<Rightarrow> Schema \<Rightarrow> Op list \<Rightarrow> int \<Rightarrow> byte list option" where
  "emit env sch ops ts =
     (case RowWriterV2 sch of
        Inl e \<Rightarrow> None
      | Inr w0 \<Rightarrow>
          (case applyOps env sch ops w0 of
             Inl e \<Rightarrow> None
           | Inr w \<Rightarrow>
               (case finish env sch ts w of
                  Inr (SUCCEEDED, w') \<Rightarrow> Some (buf w')
                | _ \<Rightarrow> None)))"

text \<open>
  A schema of version 0 with a STRING field (slot of 8 bytes at offset 0) and a LIST_INT
  field (slot of 4 bytes at offset 8), neither nullable.
\<close>

definition strListSchema :: Schema where
  "strListSchema =
     \<lparr> version = 0,
       fieldList = [plainField STRING 8, (plainField LIST_INT 4)\<lparr>foffset := 8\<rparr>],
       schemaSize = 12, numNullableFields = 0 \<rparr>"

subsection \<open>Well-formed schemas and writers\<close>

text \<open>The end of the fixed region in the buffer of a writer.\<close>

definition base :: "Schema \<Rightarrow> Writer \<Rightarrow> nat" where
  "base sch w = headerLen w + numNullBytes w + schemaSize sch"

text \<open>The fields whose slot holds the offset and the length of a value in the tail.\<close>

definition isStr :: "Field \<Rightarrow> bool" where
  "isStr f = (ftype f = STRING \<or> ftype f = GEOGRAPHY)"

text \<open>
  The number of bytes that the typed writers store into the slot of a field, by the
  type of the field: the \<open>sizeof\<close> of the stored members, two \<open>int32_t\<close> for a string or
  geography, one \<open>int32_t\<close> for a list or set, the declared length for a fixed string.
\<close>

definition slotBytes :: "Field \<Rightarrow> nat" where
  "slotBytes f =
     (case ftype f of
        BOOL \<Rightarrow> 1 | INT8 \<Rightarrow> 1 | INT16 \<Rightarrow> 2 | INT32 \<Rightarrow> 4 | INT64 \<Rightarrow> 8 | TIMESTAMP \<Rightarrow> 8
      | FLOAT \<Rightarrow> 4 | DOUBLE \<Rightarrow> 8 | STRING \<Rightarrow> 8 | FIXED_STRING \<Rightarrow> fsize f | GEOGRAPHY \<Rightarrow> 8
      | DATE \<Rightarrow> 4 | TIME \<Rightarrow> 7 | DATETIME \<Rightarrow> 11 | DURATION \<Rightarrow> 16
      | LIST_STRING \<Rightarrow> 4 | LIST_INT \<Rightarrow> 4 | LIST_FLOAT \<Rightarrow> 4
      | SET_STRING \<Rightarrow> 4 | SET_INT \<Rightarrow> 4 | SET_FLOAT \<Rightarrow> 4
      | VID \<Rightarrow> 0 | UNKNOWN \<Rightarrow> 0)"

text \<open>
  Modelled from the spec: the schema provider is not among the sources. The spec gives
  every field a slot of \<open>size\<close> bytes at \<open>offset\<close> in the fixed region, which the field
  fills, and the schema a fixed size that is the sum of the widths; a null flag position
  to every nullable field, unique and packed from 0; and calls a default that does not
  coerce into its field a corrupt schema (here: a NULL default on a field that is not
  nullable and has no flag).
\<close>

definition wfSchema :: "Schema \<Rightarrow> bool" where
  "wfSchema sch \<longleftrightarrow>
     (\<forall>i < length (fieldList sch).
        slotBytes (fieldList sch ! i) \<le> fsize (fieldList sch ! i) \<and>
        foffset (fieldList sch ! i) + fsize (fieldList sch ! i) \<le> schemaSize sch \<and>
        (nullable (fieldList sch ! i) \<longrightarrow>
           nullFlagPos (fieldList sch ! i) < numNullableFields sch) \<and>
        (\<forall>bad. defaultValue (fieldList sch ! i) = Some (NullValue bad) \<longrightarrow>
           nullable (fieldList sch ! i))) \<and>
     (\<forall>i < length (fieldList sch). \<forall>j < length (fieldList sch). i \<noteq> j \<longrightarrow>
        (foffset (fieldList sch ! i) + fsize (fieldList sch ! i) \<le> foffset (fieldList sch ! j) \<or>
         foffset (fieldList sch ! j) + fsize (fieldList sch ! j) \<le> foffset (fieldList sch ! i)) \<and>
        (nullable (fieldList sch ! i) \<and> nullable (fieldList sch ! j) \<longrightarrow>
           nullFlagPos (fieldList sch ! i) \<noteq> nullFlagPos (fieldList sch ! j)))"

text \<open>
  What the constructor establishes and every call before \<open>finish()\<close> keeps: the layout
  of header, null bytes and fixed region, and one \<open>isSet\<close> flag per field.
\<close>

definition wfWriter :: "Schema \<Rightarrow> Writer \<Rightarrow> bool" where
  "wfWriter sch w \<longleftrightarrow>
     1 \<le> headerLen w \<and>
     numNullBytes w = nullBytesFor (numNullableFields sch) \<and>
     base sch w \<le> length (buf w) \<and>
     length (isSet w) = length (fieldList sch) \<and>
     \<not> finished w"

text \<open>
  The slot of the field \<open>f\<close> refers to the bytes \<open>v\<close>: it holds an offset into the tail
  and the length of \<open>v\<close>, with \<open>v\<close> at that offset; or, in out-of-space mode, offset 0
  and an index into \<open>strList_\<close>, with \<open>v\<close> at that index.
\<close>

definition refersTo :: "Schema \<Rightarrow> Writer \<Rightarrow> Field \<Rightarrow> byte list \<Rightarrow> bool" where
  "refersTo sch w f v \<longleftrightarrow>
     (\<exists>off. slice (buf w) (slotOffset w f) 8 = le_bytes 4 (int off) @ le_bytes 4 (int (length v)) \<and>
            base sch w \<le> off \<and> off + length v \<le> length (buf w) \<and>
            slice (buf w) off (length v) = v) \<or>
     (outOfSpaceStr w \<and>
      (\<exists>k < length (strList w).
         slice (buf w) (slotOffset w f) 8 = le_bytes 4 0 @ le_bytes 4 (int k) \<and>
         strList w ! k = v))"

text \<open>
  What a call may change: the bytes at the positions \<open>S\<close> of the fixed region, the null
  flags \<open>Q\<close> and the \<open>isSet\<close> flags \<open>J\<close>; it may append to the buffer and to
  \<open>strList_\<close>, and latch the out-of-space mode.
\<close>

definition frameOn :: "nat set \<Rightarrow> nat set \<Rightarrow> nat set \<Rightarrow> Writer \<Rightarrow> Writer \<Rightarrow> bool" where
  "frameOn S Q J w w' \<longleftrightarrow>
     headerLen w' = headerLen w \<and> numNullBytes w' = numNullBytes w \<and>
     finished w' = finished w \<and>
     length (isSet w') = length (isSet w) \<and>
     (\<forall>k. k \<notin> J \<longrightarrow> isSet w' ! k = isSet w ! k) \<and>
     (\<forall>k < length (isSet w). isSet w ! k \<longrightarrow> isSet w' ! k) \<and>
     length (buf w) \<le> length (buf w') \<and>
     (\<forall>p. headerLen w + numNullBytes w \<le> p \<longrightarrow> p < length (buf w) \<longrightarrow> p \<notin> S \<longrightarrow>
          buf w' ! p = buf w ! p) \<and>
     (\<forall>q. q div 8 < numNullBytes w \<longrightarrow> q \<notin> Q \<longrightarrow> checkNullBit q w' = checkNullBit q w) \<and>
     (\<exists>extra. strList w' = strList w @ extra) \<and>
     (outOfSpaceStr w \<longrightarrow> outOfSpaceStr w')"

text \<open>The positions of the slot of a field, and its null flag if it has one.\<close>

definition slotRange :: "Writer \<Rightarrow> Field \<Rightarrow> nat set" where
  "slotRange w f = {slotOffset w f ..< slotOffset w f + fsize f}"

definition flagOf :: "Field \<Rightarrow> nat set" where
  "flagOf f = (if nullable f then {nullFlagPos f} else {})"

subsection \<open>The strings a writer holds\<close>

text \<open>
  The bytes that a successful \<open>setValue\<close> of \<open>v\<close> stores for a STRING or GEOGRAPHY
  field: the string itself (a STRING field only), or the WKB of the geography.
\<close>

definition strOfValue :: "Field \<Rightarrow> Value \<Rightarrow> byte list option" where
  "strOfValue f v =
     (case v of
        StrV s \<Rightarrow> if ftype f = STRING then Some s else None
      | GeographyV g \<Rightarrow> if isStr f then Some (g_wkb g) else None
      | _ \<Rightarrow> None)"

text \<open>
  The field \<open>i\<close> is settled: a value has been written to it (\<open>m\<close> keeps the last one
  for every field), or it is nullable and its null flag is set.
\<close>

definition settled :: "Schema \<Rightarrow> Writer \<Rightarrow> (nat \<Rightarrow> byte list option) \<Rightarrow> nat \<Rightarrow> bool" where
  "settled sch w m i \<longleftrightarrow>
     m i \<noteq> None \<or>
     (nullable (fieldList sch ! i) \<and> checkNullBit (nullFlagPos (fieldList sch ! i)) w)"

text \<open>
  The writer \<open>w\<close> is consistent with the values \<open>m\<close> last written to the STRING and
  GEOGRAPHY fields: the slot of each such field refers to its value, and a field that
  is marked as set is settled.
\<close>

definition consistent :: "Schema \<Rightarrow> Writer \<Rightarrow> (nat \<Rightarrow> byte list option) \<Rightarrow> bool" where
  "consistent sch w m \<longleftrightarrow>
     wfWriter sch w \<and>
     (\<forall>i < length (fieldList sch). isStr (fieldList sch ! i) \<longrightarrow>
        (\<forall>v. m i = Some v \<longrightarrow> refersTo sch w (fieldList sch ! i) v) \<and>
        (isSet w ! i \<longrightarrow> settled sch w m i))"

text \<open>
  The effect of one call for the field \<open>j\<close> that stores the string \<open>s\<close>, if any: it
  stays inside the slot and the flags of the field; on a STRING or GEOGRAPHY field it
  either makes the slot refer to \<open>s\<close>, or leaves slot and flags alone, or sets the null
  flag of the field.
\<close>

definition effect :: "Schema \<Rightarrow> nat \<Rightarrow> byte list option \<Rightarrow> Writer \<Rightarrow> Writer \<Rightarrow> bool" where
  "effect sch j s w w' \<longleftrightarrow>
     frameOn (slotRange w (fieldList sch ! j)) (flagOf (fieldList sch ! j)) {j} w w' \<and>
     (isStr (fieldList sch ! j) \<longrightarrow>
        (case s of
           Some v \<Rightarrow> refersTo sch w' (fieldList sch ! j) v
         | None \<Rightarrow>
             frameOn {} {} {} w w' \<or>
             (nullable (fieldList sch ! j) \<and>
              frameOn {} {nullFlagPos (fieldList sch ! j)} {j} w w' \<and>
              checkNullBit (nullFlagPos (fieldList sch ! j)) w')))"

text \<open>
  The string that a call stores for the field \<open>i\<close> if it succeeds, and the last string
  stored for \<open>i\<close> by a sequence of calls that starts on the writer \<open>w\<close>.
\<close>

fun opStr :: "Schema \<Rightarrow> Op \<Rightarrow> nat \<Rightarrow> byte list option" where
  "opStr sch (SetValue index v) i =
     (if index = int i \<and> i < length (fieldList sch) then strOfValue (fieldList sch ! i) v
      else None)"
| "opStr sch op i = None"

fun lastWritten :: "Env \<Rightarrow> Schema \<Rightarrow> Op list \<Rightarrow> Writer \<Rightarrow> nat \<Rightarrow> byte list option" where
  "lastWritten env sch [] w i = None"
| "lastWritten env sch (op # ops) w i =
     (case applyOp env sch op w of
        Inl e \<Rightarrow> None
      | Inr (r, w') \<Rightarrow>
          (case lastWritten env sch ops w' i of
             Some v \<Rightarrow> Some v
           | None \<Rightarrow> if r = SUCCEEDED then opStr sch op i else None))"

text \<open>
  The string that \<open>finish\<close> stores for the field \<open>i\<close> from its default, when the field is
  unset in \<open>w\<close>.
\<close>

definition defaultStr :: "Schema \<Rightarrow> Writer \<Rightarrow> nat \<Rightarrow> byte list option" where
  "defaultStr sch w i =
     (if i < length (fieldList sch) \<and> \<not> isSet w ! i
      then (case defaultValue (fieldList sch ! i) of
              Some d \<Rightarrow> strOfValue (fieldList sch ! i) d
            | None \<Rightarrow> None)
      else None)"

text \<open>
  The last value written to the field \<open>i\<close> of a record: by the default at \<open>finish\<close>, on
  the writer \<open>w\<close>, or else by the calls \<open>ops\<close> before, which started on \<open>w0\<close>.
\<close>

definition lastValue ::
  "Env \<Rightarrow> Schema \<Rightarrow> Op list \<Rightarrow> Writer \<Rightarrow> Writer \<Rightarrow> nat \<Rightarrow> byte list option" where
  "lastValue env sch ops w0 w i =
     (case defaultStr sch w i of
        Some v \<Rightarrow> Some v
      | None \<Rightarrow> lastWritten env sch ops w0 i)"

text \<open>
  The last values after the loop of \<open>checkUnsetFields\<close> has run over the fields \<open>is\<close> of
  the writer \<open>w\<close>.
\<close>

definition withDefaults ::
  "Schema \<Rightarrow> Writer \<Rightarrow> nat list \<Rightarrow> (nat \<Rightarrow> byte list option) \<Rightarrow> nat \<Rightarrow> byte list option" where
  "withDefaults sch w is m i =
     (case (if i \<in> set is then defaultStr sch w i else None) of
        Some v \<Rightarrow> Some v
      | None \<Rightarrow> m i)"

text \<open>A field that \<open>finish\<close> marks as null: unset, and no default or a NULL default.\<close>

definition nullAtFinish :: "Schema \<Rightarrow> Writer \<Rightarrow> nat \<Rightarrow> bool" where
  "nullAtFinish sch w i \<longleftrightarrow>
     \<not> isSet w ! i \<and>
     (defaultValue (fieldList sch ! i) = None \<or>
      (\<exists>bad. defaultValue (fieldList sch ! i) = Some (NullValue bad)))"

text \<open>The field \<open>i\<close> is null in the buffer of \<open>w\<close>: it is nullable and its flag is set.\<close>

definition isNull :: "Schema \<Rightarrow> Writer \<Rightarrow> nat \<Rightarrow> bool" where
  "isNull sch w i \<longleftrightarrow>
     nullable (fieldList sch ! i) \<and> checkNullBit (nullFlagPos (fieldList sch ! i)) w"

text \<open>
  The writer with the buffer \<open>temp\<close> that \<open>processOutOfSpace\<close> builds in place of its own,
  in which every slot refers to the tail.
\<close>

definition canon :: "Writer \<Rightarrow> byte list \<Rightarrow> Writer" where
  "canon w temp = w\<lparr>buf := temp, outOfSpaceStr := False\<rparr>"

text \<open>
  Schemas of version 0 with one-byte INT8 fields: the first has the default 5, the
  second is nullable with the null flag 0 and has no default, and \<open>others\<close> follow. With
  them, the writer that the constructor returns for such a schema of \<open>n\<close> fields, and a
  third field that is not nullable and has no default.
\<close>

definition defaultsSchema :: "Field list \<Rightarrow> Schema" where
  "defaultsSchema others =
     \<lparr> version = 0,
       fieldList = [(plainField INT8 1)\<lparr>defaultValue := Some (IntV 5)\<rparr>,
                    (plainField INT8 1)\<lparr>foffset := 1, nullable := True\<rparr>] @ others,
       schemaSize = 2 + length others, numNullableFields = 1 \<rparr>"

definition unsetWriter :: "nat \<Rightarrow> Writer" where
  "unsetWriter n =
     \<lparr> buf = 0x08 # replicate (Suc n) 0, headerLen = 1, numNullBytes = 1, approxStrLen = 0,
       finished = False, outOfSpaceStr = False, isSet = replicate n False, strList = [] \<rparr>"

definition thirdField :: Field where
  "thirdField = (plainField INT8 1)\<lparr>foffset := 2\<rparr>"

section \<open>Properties\<close>

subsection \<open>Bytes\<close>

lemma length_le_bytes [simp]: "length (le_bytes n v) = n"
  by (induction n arbitrary: v) auto

lemma length_memcpy_at [simp]: "length (memcpy_at b off xs) = length b"
  by (induction xs arbitrary: b off) auto

lemma memcpy_at_nth_outside:
  "i < off \<or> off + length xs \<le> i \<Longrightarrow> memcpy_at b off xs ! i = b ! i"
  by (induction xs arbitrary: b off) auto

lemma memcpy_at_nth_inside:
  "off \<le> i \<Longrightarrow> i < off + length xs \<Longrightarrow> off + length xs \<le> length b \<Longrightarrow>
   memcpy_at b off xs ! i = xs ! (i - off)"
proof (induction xs arbitrary: b off)
  case Nil then show ?case by simp
next
  case (Cons x xs)
  show ?case
  proof (cases "i = off")
    case True
    then show ?thesis using Cons.prems by (simp add: memcpy_at_nth_outside)
  next
    case False
    then have "memcpy_at (b[off := x]) (Suc off) xs ! i = xs ! (i - Suc off)"
      using Cons.prems by (intro Cons.IH) auto
    then show ?thesis using False Cons.prems by (simp add: nth_Cons')
  qed
qed

lemma memcpy_at_eq:
  "off + length xs \<le> length b \<Longrightarrow>
   memcpy_at b off xs = take off b @ xs @ drop (off + length xs) b"
  by (rule nth_equalityI) (auto simp: nth_append memcpy_at_nth_outside memcpy_at_nth_inside)

lemma slice_memcpy_same:
  "off + length xs \<le> length b \<Longrightarrow> slice (memcpy_at b off xs) off (length xs) = xs"
  by (simp add: slice_def memcpy_at_eq)

lemma slice_cong_nth:
  assumes "length b' = length b" "\<And>i. off \<le> i \<Longrightarrow> i < off + n \<Longrightarrow> i < length b \<Longrightarrow> b' ! i = b ! i"
  shows "slice b' off n = slice b off n"
  unfolding slice_def
  by (rule nth_equalityI) (use assms in \<open>auto simp: \<close>)

lemma slice_memcpy_disjoint:
  "off' + n \<le> off \<or> off + length xs \<le> off' \<Longrightarrow>
   slice (memcpy_at b off xs) off' n = slice b off' n"
  by (rule slice_cong_nth) (auto simp: memcpy_at_nth_outside)

lemma slice_update_disjoint:
  "i < off \<or> off + n \<le> i \<Longrightarrow> slice (b[i := x]) off n = slice b off n"
  by (rule slice_cong_nth) auto

lemma slice_append:
  "off + n \<le> length b \<Longrightarrow> slice (b @ c) off n = slice b off n"
  by (simp add: slice_def)

subsection \<open>Null flags and the end of a typed writer\<close>

lemma buf_markSet:
  "buf (markSet field index w) =
     (if nullable field then buf (clearNullBit (nullFlagPos field) w) else buf w)"
  by (simp add: markSet_def Let_def)

lemma buf_clearNullBit:
  "buf (clearNullBit pos w) =
     (buf w)[headerLen w + pos div 8 := byteAt (buf w) (headerLen w + pos div 8) AND andBits ! (pos mod 8)]"
  by (simp add: clearNullBit_def Let_def drop_bit_eq_div)

lemma nth_list_update_lt:
  "j < length xs \<Longrightarrow> xs[i := x] ! j = (if i = j then x else xs ! j)"
  by (cases "i = j") auto

lemma write_bool_stores:
  "write_bool sch index v w =
     storeFixed sch index
       (\<lambda>t. if t \<in> {BOOL, INT8, INT16, INT32, INT64}
            then Inr (b2byte v # replicate (intWidth t - 1) 0) else Inl TYPE_MISMATCH) w"
proof -
  have cong: "markSet f i (w\<lparr>buf := A\<rparr>) = markSet f i (w\<lparr>buf := B\<rparr>)"
    if "length A = length B" "\<And>i. i < length A \<Longrightarrow> A ! i = B ! i" for f i A B
  proof -
    have "A = B" using that by (auto intro: nth_equalityI)
    then show ?thesis by simp
  qed
  show ?thesis
    by (cases "ftype (fieldList sch ! index)")
       (auto simp: write_bool_def storeFixed_def Let_def intWidth_def numeral_eq_Suc
          nth_list_update_lt intro!: cong)
qed

subsection \<open>Booleans in integer fields\<close>

text \<open>
  Claim C7. A successful write of a bool into a field of type INT16, INT32 or INT64
  leaves \<open>0x01\<close> (true) or \<open>0x00\<close> (false) in the low byte of the slot and zero in
  every other byte of the slot, whatever the slot held before. The slot lies inside the
  buffer, and the null flag of a nullable field lies in the null bytes in front of the
  fixed region.
\<close>

theorem write_bool_zero_pads:
  assumes t: "ftype (fieldList sch ! index) \<in> {INT16, INT32, INT64}"
    and slot: "slotOffset w (fieldList sch ! index) + intWidth (ftype (fieldList sch ! index))
               \<le> length (buf w)"
    and flag: "nullable (fieldList sch ! index) \<Longrightarrow>
               nullFlagPos (fieldList sch ! index) div 8 < numNullBytes w"
  shows "fst (write_bool sch index v w) = SUCCEEDED \<and>
         slice (buf (snd (write_bool sch index v w)))
           (slotOffset w (fieldList sch ! index)) (intWidth (ftype (fieldList sch ! index)))
         = (if v then 0x01 else 0x00) # replicate (intWidth (ftype (fieldList sch ! index)) - 1) 0"
proof -
  let ?f = "fieldList sch ! index"
  let ?n = "intWidth (ftype ?f)"
  let ?bs = "b2byte v # replicate (?n - 1) 0"
  have n: "length ?bs = ?n" using t by (auto simp: intWidth_def)
  have w: "write_bool sch index v w =
           (SUCCEEDED, markSet ?f index (w\<lparr>buf := memcpy_at (buf w) (slotOffset w ?f) ?bs\<rparr>))"
    using t by (auto simp: write_bool_stores storeFixed_def Let_def)
  have s: "slice (memcpy_at (buf w) (slotOffset w ?f) ?bs) (slotOffset w ?f) ?n = ?bs"
    using slice_memcpy_same [of "slotOffset w ?f" ?bs "buf w"] slot n by simp
  have "slice (buf (markSet ?f index (w\<lparr>buf := memcpy_at (buf w) (slotOffset w ?f) ?bs\<rparr>)))
          (slotOffset w ?f) ?n = ?bs"
  proof (cases "nullable ?f")
    case False
    then show ?thesis using s by (simp add: buf_markSet)
  next
    case True
    then have "headerLen w + nullFlagPos ?f div 8 < slotOffset w ?f"
      using flag by (simp add: slotOffset_def)
    then show ?thesis
      using s True by (simp add: buf_markSet buf_clearNullBit slice_update_disjoint)
  qed
  then show ?thesis by (simp add: w b2byte_def)
qed

theorem write_bool_zero_pads_witness:
  "ftype (fieldList (singleSchema (plainField INT64 8)) ! 0) \<in> {INT16, INT32, INT64} \<and>
   slice (buf staleWriter) 1 8 = replicate 8 0xFF \<and>
   fst (write_bool (singleSchema (plainField INT64 8)) 0 True staleWriter) = SUCCEEDED \<and>
   slice (buf (snd (write_bool (singleSchema (plainField INT64 8)) 0 True staleWriter))) 1 8
     = [0x01, 0, 0, 0, 0, 0, 0, 0]"
proof -
  let ?sch = "singleSchema (plainField INT64 8)"
  have f: "fieldList ?sch ! 0 = plainField INT64 8"
    by (simp add: singleSchema_def)
  have t: "ftype (fieldList ?sch ! 0) \<in> {INT16, INT32, INT64}"
    by (simp add: singleSchema_def plainField_def)
  have off: "slotOffset staleWriter (fieldList ?sch ! 0) = 1"
    by (simp add: singleSchema_def plainField_def slotOffset_def staleWriter_def)
  have wd: "intWidth (ftype (fieldList ?sch ! 0)) = 8"
    by (simp add: singleSchema_def plainField_def intWidth_def)
  have slot: "slotOffset staleWriter (fieldList ?sch ! 0) + intWidth (ftype (fieldList ?sch ! 0))
              \<le> length (buf staleWriter)"
    unfolding off wd by (simp add: staleWriter_def)
  have flag: "nullable (fieldList ?sch ! 0) \<Longrightarrow>
              nullFlagPos (fieldList ?sch ! 0) div 8 < numNullBytes staleWriter"
    by (simp add: singleSchema_def plainField_def)
  have stale: "slice (buf staleWriter) 1 8 = replicate 8 0xFF"
    by (simp add: staleWriter_def slice_def) code_simp
  have r: "replicate (8 - 1) (0::byte) = [0, 0, 0, 0, 0, 0, 0]"
    by code_simp
  show ?thesis
    using write_bool_zero_pads [OF t slot flag, of True] t stale
    unfolding off wd r by simp
qed

subsection \<open>The header of a new writer\<close>

text \<open>
  Claim C2. For a schema version \<open>v\<close> with \<open>0 < v \<le> 2^56 - 1\<close> the constructor
  should emit the header byte \<open>0x08 | k\<close> and \<open>k\<close> little-endian version bytes for the
  least \<open>k\<close> with \<open>v < 2^(8k)\<close>, and fail only from \<open>2^56\<close> on. The comparisons of
  the constructor are strict from the second on: version \<open>65535\<close> (which fits two
  bytes) gets three version bytes, and version \<open>2^56 - 1\<close> (which fits seven) is
  refused.
\<close>

theorem header_version_off_by_one:
  "encodeHeader 65535 = Inr ([0x0B, 0xFF, 0xFF, 0x00], 4) \<and>
   (65535 :: int) < 2 ^ (8 * 2) \<and>
   RowWriterV2 \<lparr> version = 2 ^ 56 - 1, fieldList = [], schemaSize = 0, numNullableFields = 0 \<rparr>
     = Inl SchemaVersionTooBig"
proof -
  have "encodeHeader 65535 = Inr ([0x0B, 0xFF, 0xFF, 0x00], 4)"
    by code_simp
  moreover have "encodeHeader (2 ^ 56 - 1) = Inl SchemaVersionTooBig"
    by (simp add: encodeHeader_def versionHeader_def)
  ultimately show ?thesis
    by (simp add: RowWriterV2_def)
qed

subsection \<open>Floating-point values in integer fields\<close>

lemma round_away_mono_bounds:
  assumes "of_int lo \<le> q" "q \<le> of_int hi"
  shows "lo \<le> round_away q \<and> round_away q \<le> hi"
proof (cases "q \<ge> 0")
  case True
  have "\<lfloor>q + 1 / 2\<rfloor> \<le> hi" using assms by (simp add: floor_le_iff)
  moreover have "lo \<le> \<lfloor>q + 1 / 2\<rfloor>" using assms by (simp add: le_floor_iff)
  ultimately show ?thesis using True by (simp add: round_away_def)
next
  case False
  have "\<lfloor>- q + 1 / 2\<rfloor> \<le> - lo" using assms by (simp add: floor_le_iff)
  moreover have "- hi \<le> \<lfloor>- q + 1 / 2\<rfloor>" using assms by (simp add: le_floor_iff)
  ultimately show ?thesis using False by (simp add: round_away_def)
qed

lemma castToInt_in_range:
  assumes "of_int (- (2 ^ (bits - 1))) \<le> q" "q \<le> of_int (2 ^ (bits - 1) - 1)"
  shows "castToInt env bits (Finite q) = round_away q"
  using round_away_mono_bounds [OF assms] by (simp add: castToInt_def Let_def)

text \<open>
  Claim C3, as amended. A finite float or double \<open>v\<close> written to an INT8, INT16, INT32
  or INT64 field is range-checked before it is rounded: the writer returns OUT_OF_RANGE
  when \<open>v\<close> is below the minimum of the type or above its maximum (the maximum as
  converted to the source's floating type: \<open>2^31\<close> for a float into INT32, \<open>2^63\<close> into
  INT64), and when \<open>v\<close> lies between minimum and maximum it stores \<open>v\<close> rounded half away
  from zero, which is then within the range of the type.
\<close>

theorem float_to_int_checks_before_rounding:
  assumes t: "t \<in> {INT8, INT16, INT32, INT64}"
  shows "(of_int (intMin t) \<le> q \<and> q \<le> of_int (intMax t) \<longrightarrow>
            float_bytes env (Finite q) t = Inr (le_bytes (intWidth t) (round_away q)) \<and>
            double_bytes env (Finite q) t = Inr (le_bytes (intWidth t) (round_away q)) \<and>
            intMin t \<le> round_away q \<and> round_away q \<le> intMax t) \<and>
         (q < of_int (intMin t) \<longrightarrow>
            float_bytes env (Finite q) t = Inl OUT_OF_RANGE \<and>
            double_bytes env (Finite q) t = Inl OUT_OF_RANGE) \<and>
         (q > (if t = INT32 then 2 ^ 31 else if t = INT64 then 2 ^ 63 else of_int (intMax t)) \<longrightarrow>
            float_bytes env (Finite q) t = Inl OUT_OF_RANGE) \<and>
         (q > (if t = INT64 then 2 ^ 63 else of_int (intMax t)) \<longrightarrow>
            double_bytes env (Finite q) t = Inl OUT_OF_RANGE)"
proof -
  consider "t = INT8" | "t = INT16" | "t = INT32" | "t = INT64" using t by auto
  then show ?thesis
  proof cases
    case 1
    have c: "of_int (- (2 ^ (8 - 1))) \<le> q \<Longrightarrow> q \<le> of_int (2 ^ (8 - 1) - 1) \<Longrightarrow>
             castToInt env 8 (Finite q) = round_away q \<and> - (2 ^ (8 - 1)) \<le> round_away q
             \<and> round_away q \<le> 2 ^ (8 - 1) - 1"
      using castToInt_in_range [of 8 q env] round_away_mono_bounds [of "- (2 ^ (8 - 1))" q "2 ^ (8 - 1) - 1"]
      by simp
    show ?thesis using c
      by (auto simp: 1 float_bytes_def double_bytes_def intMin_def intMax_def intWidth_def)
  next
    case 2
    have c: "of_int (- (2 ^ (16 - 1))) \<le> q \<Longrightarrow> q \<le> of_int (2 ^ (16 - 1) - 1) \<Longrightarrow>
             castToInt env 16 (Finite q) = round_away q \<and> - (2 ^ (16 - 1)) \<le> round_away q
             \<and> round_away q \<le> 2 ^ (16 - 1) - 1"
      using castToInt_in_range [of 16 q env] round_away_mono_bounds [of "- (2 ^ (16 - 1))" q "2 ^ (16 - 1) - 1"]
      by simp
    show ?thesis using c
      by (auto simp: 2 float_bytes_def double_bytes_def intMin_def intMax_def intWidth_def)
  next
    case 3
    have c: "of_int (- (2 ^ (32 - 1))) \<le> q \<Longrightarrow> q \<le> of_int (2 ^ (32 - 1) - 1) \<Longrightarrow>
             castToInt env 32 (Finite q) = round_away q \<and> - (2 ^ (32 - 1)) \<le> round_away q
             \<and> round_away q \<le> 2 ^ (32 - 1) - 1"
      using castToInt_in_range [of 32 q env] round_away_mono_bounds [of "- (2 ^ (32 - 1))" q "2 ^ (32 - 1) - 1"]
      by simp
    show ?thesis using c
      by (auto simp: 3 float_bytes_def double_bytes_def intMin_def intMax_def intWidth_def)
  next
    case 4
    have c: "of_int (- (2 ^ (64 - 1))) \<le> q \<Longrightarrow> q \<le> of_int (2 ^ (64 - 1) - 1) \<Longrightarrow>
             castToInt env 64 (Finite q) = round_away q \<and> - (2 ^ (64 - 1)) \<le> round_away q
             \<and> round_away q \<le> 2 ^ (64 - 1) - 1"
      using castToInt_in_range [of 64 q env] round_away_mono_bounds [of "- (2 ^ (64 - 1))" q "2 ^ (64 - 1) - 1"]
      by simp
    show ?thesis using c
      by (auto simp: 4 float_bytes_def double_bytes_def intMin_def intMax_def intWidth_def)
  qed
qed

theorem float_to_int_checks_before_rounding_witness:
  "INT16 \<in> {INT8, INT16, INT32, INT64} \<and>
   of_int (intMin INT16) \<le> (- 5 / 2 :: rat) \<and> (- 5 / 2 :: rat) \<le> of_int (intMax INT16) \<and>
   double_bytes exampleEnv (Finite (- 5 / 2)) INT16 = Inr [0xFD, 0xFF] \<and>
   float_bytes exampleEnv (Finite (- 5 / 2)) INT16 = Inr [0xFD, 0xFF] \<and>
   double_bytes exampleEnv (Finite 32768) INT16 = Inl OUT_OF_RANGE \<and>
   float_bytes exampleEnv (Finite (- 32769)) INT16 = Inl OUT_OF_RANGE"
proof -
  have t: "INT16 \<in> {INT8, INT16, INT32, INT64}" by simp
  have w: "intWidth INT16 = 2" by (simp add: intWidth_def)
  have lo: "intMin INT16 = - 32768" and hi: "intMax INT16 = 32767"
    by (simp_all add: intMin_def intMax_def w)
  have "\<lfloor>3 :: rat\<rfloor> = 3" by simp
  then have r: "round_away (- 5 / 2) = - 3"
    by (simp add: round_away_def)
  have b: "le_bytes 2 (- 3) = [0xFD, 0xFF]" by code_simp
  show ?thesis
    using float_to_int_checks_before_rounding [OF t, of "- 5 / 2" exampleEnv]
      float_to_int_checks_before_rounding [OF t, of "32768" exampleEnv]
      float_to_int_checks_before_rounding [OF t, of "- 32769" exampleEnv]
    unfolding w lo hi r b by simp
qed

text \<open>
  The claim as stated (OUT_OF_RANGE exactly when the rounded integer is outside the
  range, so that a value above the maximum whose rounded result is within range is
  accepted) fails at \<open>127.25\<close> for INT8: it rounds to 127 and is rejected.
\<close>

theorem float_range_check_counterexample:
  "double_bytes exampleEnv (Finite (509 / 4)) INT8 = Inl OUT_OF_RANGE \<and>
   float_bytes exampleEnv (Finite (509 / 4)) INT8 = Inl OUT_OF_RANGE \<and>
   round_away (509 / 4) = 127 \<and> intMin INT8 \<le> 127 \<and> 127 \<le> intMax INT8"
proof -
  have "\<lfloor>511 / 4 :: rat\<rfloor> = 127"
    by (rule floor_unique) simp_all
  then show ?thesis
    by (simp add: double_bytes_def float_bytes_def round_away_def intMin_def intMax_def
        intWidth_def)
qed

subsection \<open>Lists and sets: type mismatch\<close>

lemma RowWriterV2_single:
  "\<not> nullable f \<Longrightarrow> RowWriterV2 (singleSchema f) = Inr (freshWriter (fsize f))"
  by (simp add: RowWriterV2_def singleSchema_def encodeHeader_def nullBytesFor_def resize_def
      freshWriter_def)

lemma writeItem_typed:
  "vt \<in> {T_STRING, T_INT, T_FLOAT} \<Longrightarrow> valueType x = vt \<Longrightarrow>
   fst (writeItem env x vt b) = SUCCEEDED"
  by (cases x) auto

lemma writeListItems_typed:
  "vt \<in> {T_STRING, T_INT, T_FLOAT} \<Longrightarrow> \<forall>x \<in> set l. valueType x = vt \<Longrightarrow>
   fst (writeListItems env l vt b) = SUCCEEDED"
proof (induction l arbitrary: b)
  case Nil then show ?case by simp
next
  case (Cons x l)
  from Cons.prems have "fst (writeItem env x vt b) = SUCCEEDED"
    by (intro writeItem_typed) auto
  then obtain b' where "writeItem env x vt b = (SUCCEEDED, b')"
    by (cases "writeItem env x vt b") auto
  then show ?case using Cons by simp
qed

lemma writeSetItems_typed:
  "vt \<in> {T_STRING, T_INT, T_FLOAT} \<Longrightarrow> \<forall>x \<in> set l. valueType x = vt \<Longrightarrow>
   fst (writeSetItems env l vt ser b) = SUCCEEDED"
proof (induction l arbitrary: b ser)
  case Nil then show ?case by simp
next
  case (Cons x l)
  from Cons.prems have "fst (writeItem env x vt b) = SUCCEEDED"
    by (intro writeItem_typed) auto
  then obtain b' where "writeItem env x vt b = (SUCCEEDED, b')"
    by (cases "writeItem env x vt b") auto
  then show ?case using Cons by simp
qed

lemma writeList_result:
  "vt \<in> {T_STRING, T_INT, T_FLOAT} \<Longrightarrow>
   writeList env l vt b =
     (if \<exists>x \<in> set l. valueType x \<noteq> vt then (TYPE_MISMATCH, b)
      else (SUCCEEDED, snd (writeListItems env l vt b)))"
  using writeListItems_typed [of vt l env b]
  by (auto simp: writeList_def list_ex_iff prod_eq_iff)

lemma writeSet_result:
  "vt \<in> {T_STRING, T_INT, T_FLOAT} \<Longrightarrow>
   writeSet env l vt b =
     (if \<exists>x \<in> set l. valueType x \<noteq> vt then (TYPE_MISMATCH, b)
      else (SUCCEEDED, snd (writeSetItems env l vt [] b)))"
  using writeSetItems_typed [of vt l env "[]" b]
  by (auto simp: writeSet_def list_ex_iff prod_eq_iff)

lemma listElemType_cases:
  "listElemType t = Some vt \<Longrightarrow> vt \<in> {T_STRING, T_INT, T_FLOAT}"
  by (auto simp: listElemType_def split: if_splits)

lemma setElemType_cases:
  "setElemType t = Some vt \<Longrightarrow> vt \<in> {T_STRING, T_INT, T_FLOAT}"
  by (auto simp: setElemType_def split: if_splits)

lemma write_List_mismatch:
  assumes "fst (write_List env sch index l w) = TYPE_MISMATCH"
  shows "snd (write_List env sch index l w)
           = (latch w index)\<lparr>buf := buf w @ le_bytes 4 (int (length l))\<rparr>
         \<and> (listElemType (ftype (fieldList sch ! index)) = None \<or>
            (\<exists>x \<in> set l. Some (valueType x) \<noteq> listElemType (ftype (fieldList sch ! index))))"
proof (cases "listElemType (ftype (fieldList sch ! index))")
  case None
  then show ?thesis by (simp add: write_List_def Let_def latch_def)
next
  case (Some vt)
  note vt = listElemType_cases [OF Some]
  show ?thesis
    using assms
    by (auto simp: write_List_def Let_def latch_def Some writeList_result [OF vt]
        split: if_splits)
qed

lemma write_Set_mismatch:
  assumes "fst (write_Set env sch index l w) = TYPE_MISMATCH"
  shows "snd (write_Set env sch index l w)
           = (latch w index)\<lparr>buf := buf w @ le_bytes 4 (int (length l))\<rparr>
         \<and> (setElemType (ftype (fieldList sch ! index)) = None \<or>
            (\<exists>x \<in> set l. Some (valueType x) \<noteq> setElemType (ftype (fieldList sch ! index))))"
proof (cases "setElemType (ftype (fieldList sch ! index))")
  case None
  then show ?thesis by (simp add: write_Set_def Let_def latch_def)
next
  case (Some vt)
  note vt = setElemType_cases [OF Some]
  show ?thesis
    using assms
    by (auto simp: write_Set_def Let_def latch_def Some writeSet_result [OF vt]
        split: if_splits)
qed

lemma write_List_mismatch_iff:
  "fst (write_List env sch index l w) = TYPE_MISMATCH \<longleftrightarrow>
     (listElemType (ftype (fieldList sch ! index)) = None \<or>
      (\<exists>x \<in> set l. Some (valueType x) \<noteq> listElemType (ftype (fieldList sch ! index))))"
proof (cases "listElemType (ftype (fieldList sch ! index))")
  case None
  then show ?thesis by (simp add: write_List_def Let_def)
next
  case (Some vt)
  note vt = listElemType_cases [OF Some]
  show ?thesis
    by (auto simp: write_List_def Let_def Some writeList_result [OF vt] split: if_splits)
qed

lemma write_Set_mismatch_iff:
  "fst (write_Set env sch index l w) = TYPE_MISMATCH \<longleftrightarrow>
     (setElemType (ftype (fieldList sch ! index)) = None \<or>
      (\<exists>x \<in> set l. Some (valueType x) \<noteq> setElemType (ftype (fieldList sch ! index))))"
proof (cases "setElemType (ftype (fieldList sch ! index))")
  case None
  then show ?thesis by (simp add: write_Set_def Let_def)
next
  case (Some vt)
  note vt = setElemType_cases [OF Some]
  show ?thesis
    by (auto simp: write_Set_def Let_def Some writeSet_result [OF vt] split: if_splits)
qed

lemma mismatch_effects:
  assumes "w' = (latch w index)\<lparr>buf := buf w @ le_bytes 4 (int (length l))\<rparr>"
    and "off + n \<le> length (buf w)"
  shows "buf w' = buf w @ le_bytes 4 (int (length l)) \<and>
         length (buf w') = length (buf w) + 4 \<and>
         isSet w' = isSet w \<and>
         slice (buf w') off n = slice (buf w) off n \<and>
         w' \<noteq> w"
proof -
  have b: "buf w' = buf w @ le_bytes 4 (int (length l))" and s: "isSet w' = isSet w"
    using assms(1) by (simp_all add: latch_def)
  have "w' \<noteq> w"
  proof
    assume "w' = w"
    then have "length (buf w') = length (buf w)" by simp
    then show False using b by simp
  qed
  then show ?thesis using b s assms(2) by (simp add: slice_append)
qed

text \<open>
  Claim C10. When a write of a list or of a set fails with TYPE_MISMATCH (the type of
  the field is not a list or set type, or some element is not of the declared element
  type), the slot of the field and the \<open>isSet\<close> flags are as before, but the buffer has
  grown by the four bytes of the element count: the writer is not left unchanged.
\<close>

theorem list_set_mismatch_leaves_count:
  assumes slot: "slotOffset w (fieldList sch ! index) + fsize (fieldList sch ! index)
                 \<le> length (buf w)"
    and res: "(r, w') = write_List env sch index l w \<or> (r, w') = write_Set env sch index l w"
    and r: "r = TYPE_MISMATCH"
  shows "buf w' = buf w @ le_bytes 4 (int (length l)) \<and>
         length (buf w') = length (buf w) + 4 \<and>
         isSet w' = isSet w \<and>
         slice (buf w') (slotOffset w (fieldList sch ! index)) (fsize (fieldList sch ! index))
           = slice (buf w) (slotOffset w (fieldList sch ! index)) (fsize (fieldList sch ! index)) \<and>
         w' \<noteq> w \<and>
         ((r, w') = write_List env sch index l w \<longrightarrow>
            listElemType (ftype (fieldList sch ! index)) = None \<or>
            (\<exists>x \<in> set l. Some (valueType x) \<noteq> listElemType (ftype (fieldList sch ! index)))) \<and>
         ((r, w') = write_Set env sch index l w \<longrightarrow>
            setElemType (ftype (fieldList sch ! index)) = None \<or>
            (\<exists>x \<in> set l. Some (valueType x) \<noteq> setElemType (ftype (fieldList sch ! index))))"
proof -
  have "w' = (latch w index)\<lparr>buf := buf w @ le_bytes 4 (int (length l))\<rparr>"
    using res r write_List_mismatch [of env sch index l w]
      write_Set_mismatch [of env sch index l w]
    by (metis fst_conv snd_conv)
  note e = mismatch_effects [OF this slot]
  have cl: "(r, w') = write_List env sch index l w \<Longrightarrow>
            listElemType (ftype (fieldList sch ! index)) = None \<or>
            (\<exists>x \<in> set l. Some (valueType x) \<noteq> listElemType (ftype (fieldList sch ! index)))"
    using r write_List_mismatch_iff [of env sch index l w] by (metis fst_conv)
  have cs: "(r, w') = write_Set env sch index l w \<Longrightarrow>
            setElemType (ftype (fieldList sch ! index)) = None \<or>
            (\<exists>x \<in> set l. Some (valueType x) \<noteq> setElemType (ftype (fieldList sch ! index)))"
    using r write_Set_mismatch_iff [of env sch index l w] by (metis fst_conv)
  from e cl cs show ?thesis by blast
qed

theorem list_set_mismatch_leaves_count_witness:
  "write_List exampleEnv (singleSchema (plainField LIST_INT 4)) 0 [StrV []] (freshWriter 4)
     = (TYPE_MISMATCH, (freshWriter 4)\<lparr>buf := buf (freshWriter 4) @ [1, 0, 0, 0]\<rparr>) \<and>
   buf (freshWriter 4) @ [1, 0, 0, 0] = [0x08, 0, 0, 0, 0, 1, 0, 0, 0]"
proof -
  let ?sch = "singleSchema (plainField LIST_INT 4)"
  let ?w = "freshWriter 4"
  obtain r w' where rw: "(r, w') = write_List exampleEnv ?sch 0 [StrV []] ?w"
    by (metis surj_pair)
  have slot: "slotOffset ?w (fieldList ?sch ! 0) + fsize (fieldList ?sch ! 0) \<le> length (buf ?w)"
    by (simp add: singleSchema_def plainField_def slotOffset_def freshWriter_def)
  have r: "r = TYPE_MISMATCH"
    using rw by (simp add: write_List_def Let_def singleSchema_def plainField_def
        listElemType_def writeList_def split: prod.splits)
  have c: "le_bytes 4 (int (length [StrV []])) = [1, 0, 0, 0]" by code_simp
  have "buf w' = buf ?w @ [1, 0, 0, 0]"
    using list_set_mismatch_leaves_count [OF slot _ r, of w' exampleEnv "[StrV []]"] rw
    unfolding c by blast
  moreover have "w' = ?w\<lparr>buf := buf w'\<rparr>"
    using rw [symmetric]
    by (auto simp: write_List_def Let_def singleSchema_def plainField_def listElemType_def
        writeList_def freshWriter_def)
  ultimately have "write_List exampleEnv ?sch 0 [StrV []] ?w
                     = (TYPE_MISMATCH, ?w\<lparr>buf := buf ?w @ [1, 0, 0, 0]\<rparr>)"
    using rw r by metis
  moreover have "buf ?w @ [1, 0, 0, 0] = [0x08, 0, 0, 0, 0, 1, 0, 0, 0]"
    by (simp add: freshWriter_def numeral_eq_Suc)
  ultimately show ?thesis by blast
qed

subsection \<open>Defaults: no NOT_NULLABLE\<close>

lemma storeFixed_result:
  "fst (storeFixed sch i enc w) = (case enc (ftype (fieldList sch ! i)) of Inl r \<Rightarrow> r | Inr _ \<Rightarrow> SUCCEEDED)"
  by (simp add: storeFixed_def Let_def split: sum.splits)

lemma timestamp_bytes_nn: "timestamp_bytes env v \<noteq> Inl NOT_NULLABLE"
  by (simp add: timestamp_bytes_def split: option.splits)

lemma int64_bytes_nn: "int64_bytes env v t \<noteq> Inl NOT_NULLABLE"
  by (cases t) (simp_all add: int64_bytes_def timestamp_bytes_nn)

lemma double_bytes_nn: "double_bytes env v t \<noteq> Inl NOT_NULLABLE"
  by (cases t) (simp_all add: double_bytes_def)

lemma date_bytes_nn: "date_bytes v t \<noteq> Inl NOT_NULLABLE"
  by (cases t) (simp_all add: date_bytes_def)

lemma time_bytes_nn: "time_bytes v t \<noteq> Inl NOT_NULLABLE"
  by (cases t) (simp_all add: time_bytes_def)

lemma datetime_bytes_nn: "datetime_bytes v t \<noteq> Inl NOT_NULLABLE"
  by (cases t) (simp_all add: datetime_bytes_def)

lemma duration_bytes_nn: "duration_bytes v t \<noteq> Inl NOT_NULLABLE"
  by (cases t) (simp_all add: duration_bytes_def)

lemma storeFixed_nn:
  "enc (ftype (fieldList sch ! i)) \<noteq> Inl NOT_NULLABLE \<Longrightarrow>
   storeFixed sch i enc w = (r, w') \<Longrightarrow> r \<noteq> NOT_NULLABLE"
  by (cases "enc (ftype (fieldList sch ! i))") (auto simp: storeFixed_def Let_def)

lemma write_string_nn: "write_string sch i v k w = (r, w') \<Longrightarrow> r \<noteq> NOT_NULLABLE"
  by (auto simp: write_string_def Let_def split: PropertyType.splits if_splits)

lemma write_Geography_nn: "write_Geography sch i v w = (r, w') \<Longrightarrow> r \<noteq> NOT_NULLABLE"
  by (auto simp: write_Geography_def Let_def split: if_splits dest: write_string_nn)

lemma writeItem_nn: "fst (writeItem env x vt b) \<in> {SUCCEEDED, TYPE_MISMATCH}"
  by (cases "(env, x, vt, b)" rule: writeItem.cases) auto

lemma writeListItems_nn: "fst (writeListItems env l vt b) \<in> {SUCCEEDED, TYPE_MISMATCH}"
proof (induction l arbitrary: b)
  case Nil then show ?case by simp
next
  case (Cons x l)
  show ?case using writeItem_nn [of env x vt b] Cons.IH
    by (cases "writeItem env x vt b") (auto split: WriteResult.splits)
qed

lemma writeSetItems_nn: "fst (writeSetItems env l vt ser b) \<in> {SUCCEEDED, TYPE_MISMATCH}"
proof (induction l arbitrary: b ser)
  case Nil then show ?case by simp
next
  case (Cons x l)
  show ?case using writeItem_nn [of env x vt b] Cons.IH
    by (cases "writeItem env x vt b") (auto split: WriteResult.splits)
qed

lemma writeList_nn: "writeList env l vt b = (r, b') \<Longrightarrow> r \<in> {SUCCEEDED, TYPE_MISMATCH}"
  using writeListItems_nn [of env l vt b] by (auto simp: writeList_def split: if_splits)

lemma writeSet_nn: "writeSet env l vt b = (r, b') \<Longrightarrow> r \<in> {SUCCEEDED, TYPE_MISMATCH}"
  using writeSetItems_nn [of env l vt "[]" b] by (auto simp: writeSet_def split: if_splits)

lemma write_List_nn: "write_List env sch i l w = (r, w') \<Longrightarrow> r \<noteq> NOT_NULLABLE"
  by (auto simp: write_List_def Let_def
      split: option.splits prod.splits WriteResult.splits dest: writeList_nn)

lemma write_Set_nn: "write_Set env sch i l w = (r, w') \<Longrightarrow> r \<noteq> NOT_NULLABLE"
  by (auto simp: write_Set_def Let_def
      split: option.splits prod.splits WriteResult.splits dest: writeSet_nn)

lemma write_bool_nn: "write_bool sch i v w = (r, w') \<Longrightarrow> r \<noteq> NOT_NULLABLE"
  unfolding write_bool_stores by (erule storeFixed_nn [rotated]) simp

lemma writeDefault_nn:
  "writeDefault env sch i f d w = Inr (r, w') \<Longrightarrow> r \<noteq> NOT_NULLABLE"
  by (cases d)
     (auto simp: writeDefault_def write_int64_def write_double_def write_Date_def
        write_Time_def write_DateTime_def write_Duration_def
        dest: write_bool_nn write_string_nn write_Geography_nn write_List_nn write_Set_nn
          storeFixed_nn [OF int64_bytes_nn] storeFixed_nn [OF double_bytes_nn]
          storeFixed_nn [OF date_bytes_nn] storeFixed_nn [OF time_bytes_nn]
          storeFixed_nn [OF datetime_bytes_nn] storeFixed_nn [OF duration_bytes_nn])

lemma checkUnsetField_nn:
  "checkUnsetField env sch i w = Inr (r, w') \<Longrightarrow> r \<noteq> NOT_NULLABLE"
  by (auto simp: checkUnsetField_def Let_def split: if_splits option.splits
      dest: writeDefault_nn)

lemma checkUnsetLoop_nn:
  "checkUnsetLoop env sch is w = Inr (r, w') \<Longrightarrow> r \<noteq> NOT_NULLABLE"
proof (induction "is" arbitrary: w)
  case Nil then show ?case by simp
next
  case (Cons i rest)
  then show ?case
    by (auto split: sum.splits prod.splits if_splits dest: checkUnsetField_nn)
qed

lemma finish_nn:
  "finish env sch ts w = Inr (r, w') \<Longrightarrow> r \<noteq> NOT_NULLABLE"
  by (auto simp: finish_def checkUnsetFields_def split: if_splits sum.splits prod.splits
      dest: checkUnsetLoop_nn)

text \<open>
  Claim C9. When a field is unset at \<open>finish()\<close> and its default evaluates to NULL,
  \<open>checkUnsetFields\<close> sets the bit at the field's \<open>nullFlagPos\<close> and goes on to the next
  field with SUCCEEDED, whether or not the field is nullable; and \<open>finish()\<close> never
  returns NOT_NULLABLE.
\<close>

theorem null_default_skips_nullable_check:
  assumes unset: "\<not> isSet w ! i"
    and dflt: "defaultValue (fieldList sch ! i) = Some (NullValue bad)"
  shows "checkUnsetField env sch i w
           = Inr (SUCCEEDED, setNullBit (nullFlagPos (fieldList sch ! i)) w) \<and>
         checkUnsetLoop env sch (i # rest) w
           = checkUnsetLoop env sch rest (setNullBit (nullFlagPos (fieldList sch ! i)) w) \<and>
         (\<forall>r w'. finish env sch ts w = Inr (r, w') \<longrightarrow> r \<noteq> NOT_NULLABLE)"
proof -
  have c: "checkUnsetField env sch i w
           = Inr (SUCCEEDED, setNullBit (nullFlagPos (fieldList sch ! i)) w)"
    using unset dflt by (simp add: checkUnsetField_def Let_def hasDefault_def writeDefault_def)
  then show ?thesis using finish_nn by auto
qed


theorem null_default_skips_nullable_check_witness:
  "\<not> nullable (fieldList (singleSchema nullDefaultField) ! 0) \<and>
   \<not> isSet (freshWriter 1) ! 0 \<and>
   defaultValue (fieldList (singleSchema nullDefaultField) ! 0) = Some (NullValue False) \<and>
   finish exampleEnv (singleSchema nullDefaultField) 0 (freshWriter 1)
     = Inr (SUCCEEDED,
            (freshWriter 1)\<lparr>buf := [0x08, 0x80, 0, 0, 0, 0, 0, 0, 0, 0], finished := True\<rparr>)"
proof -
  let ?sch = "singleSchema nullDefaultField"
  let ?w = "freshWriter 1"
  have nn: "\<not> nullable (fieldList ?sch ! 0)"
    by (simp add: singleSchema_def nullDefaultField_def plainField_def)
  have unset: "\<not> isSet ?w ! 0"
    by (simp add: freshWriter_def)
  have dflt: "defaultValue (fieldList ?sch ! 0) = Some (NullValue False)"
    by (simp add: singleSchema_def nullDefaultField_def plainField_def)
  have pos: "nullFlagPos (fieldList ?sch ! 0) = 0"
    by (simp add: singleSchema_def nullDefaultField_def plainField_def)
  have sn: "setNullBit 0 ?w = ?w\<lparr>buf := [0x08, 0x80]\<rparr>"
    by (simp add: setNullBit_def freshWriter_def byteAt_def orBits_def)
  have "checkUnsetLoop exampleEnv ?sch [0] ?w = Inr (SUCCEEDED, ?w\<lparr>buf := [0x08, 0x80]\<rparr>)"
    using null_default_skips_nullable_check [OF unset dflt, of exampleEnv "[]" 0]
    unfolding pos sn by simp
  moreover have "[0 ..< length (fieldList ?sch)] = [0]"
    by (simp add: singleSchema_def)
  moreover have "le_bytes 8 0 = [0, 0, 0, 0, 0, 0, 0, 0]"
    by code_simp
  ultimately have "finish exampleEnv ?sch 0 ?w
     = Inr (SUCCEEDED, ?w\<lparr>buf := [0x08, 0x80, 0, 0, 0, 0, 0, 0, 0, 0], finished := True\<rparr>)"
    by (simp add: finish_def checkUnsetFields_def freshWriter_def)
  with nn unset dflt show ?thesis by blast
qed

subsection \<open>Reseeding from an encoded record\<close>

lemma outOfSpaceStr_markSet [simp]: "outOfSpaceStr (markSet f i w) = outOfSpaceStr w"
  by (simp add: markSet_def Let_def clearNullBit_def)

lemma outOfSpaceStr_writeVarStr:
  "isSet w ! i \<Longrightarrow> outOfSpaceStr (writeVarStr f i v w)"
  by (simp add: writeVarStr_def Let_def)

lemma processV2EncodedStr_Inr:
  assumes "processV2EncodedStr sch b = Inr w"
  shows "byteAt b 0 AND 0x18 = 0x08 \<and> headerVersion b = version sch \<and>
         w = \<lparr> buf = b,
               headerLen = unat (byteAt b 0 AND 0x07) + 1,
               numNullBytes = nullBytesFor (numNullableFields sch),
               approxStrLen = of_nat (length b) - of_nat (unat (byteAt b 0 AND 0x07) + 1)
                              - of_nat (nullBytesFor (numNullableFields sch))
                              - of_nat (schemaSize sch) - 8,
               finished = False, outOfSpaceStr = False,
               isSet = replicate (length (fieldList sch)) True,
               strList = [] \<rparr>"
  using assms
  by (auto simp: processV2EncodedStr_def Let_def headerVersion_def split: if_splits)

lemma unat_of_nat_diffs:
  fixes a b c d :: nat
  assumes "b + c + d + 8 \<le> a" "a < 2 ^ 64"
  shows "unat (of_nat a - of_nat b - of_nat c - of_nat d - 8 :: 64 word) = a - b - c - d - 8"
proof -
  have "(of_nat a - of_nat b - of_nat c - of_nat d - 8 :: 64 word)
          = of_nat (a - b - c - d - 8)"
    using assms(1) by simp
  moreover have "a - b - c - d - 8 < 2 ^ 64" using assms by simp
  ultimately show ?thesis by (simp add: unat_of_nat)
qed

lemma reseed_props:
  assumes len: "8 \<le> length encoded"
    and w: "RowWriterV2_encoded sch encoded = Inr w"
  shows "buf w = take (length encoded - 8) encoded"
    and "headerVersion (buf w) = version sch"
    and "isSet w = replicate (length (fieldList sch)) True"
    and "\<not> outOfSpaceStr w" and "\<not> finished w"
    and "approxStrLen w
              = of_nat (length (buf w)) - of_nat (headerLen w) - of_nat (numNullBytes w)
                - of_nat (schemaSize sch) - 8"
proof -
  let ?b = "take (length encoded - 8) encoded"
  have strip: "stripTimestamp encoded = ?b"
    using len by (simp add: stripTimestamp_def Let_def)
  note p = processV2EncodedStr_Inr [OF w [unfolded RowWriterV2_encoded_def strip]]
  from p show "buf w = take (length encoded - 8) encoded"
    and "headerVersion (buf w) = version sch"
    and "isSet w = replicate (length (fieldList sch)) True"
    and "\<not> outOfSpaceStr w" and "\<not> finished w"
    and "approxStrLen w
              = of_nat (length (buf w)) - of_nat (headerLen w) - of_nat (numNullBytes w)
                - of_nat (schemaSize sch) - 8"
    by auto
qed

lemma setValue_string_latches:
  assumes "\<not> finished w" "i < length (fieldList sch)" "isSet w ! i"
    and "ftype (fieldList sch ! i) = STRING"
  shows "\<exists>w'. setValue env sch (int i) (StrV s) w = Inr (SUCCEEDED, w') \<and> outOfSpaceStr w'"
  using assms by (simp add: setValue_def write_string_def Let_def outOfSpaceStr_writeVarStr)

lemma setValue_geography_latches:
  fixes g :: Geography
  assumes "\<not> finished w" "i < length (fieldList sch)" "isSet w ! i"
    and "ftype (fieldList sch ! i) = GEOGRAPHY"
    and "geoShape (fieldList sch ! i) = ANY \<or>
         shapeCode (geoShape (fieldList sch ! i)) = g_shape g"
  shows "\<exists>w'. setValue env sch (int i) (GeographyV g) w = Inr (SUCCEEDED, w') \<and>
              outOfSpaceStr w'"
  using assms
  by (auto simp: setValue_def write_Geography_def write_string_def Let_def
      outOfSpaceStr_writeVarStr)

text \<open>
  Claim C8. A writer constructed from an encoded record should hold the record
  without its trailing 8-byte timestamp, with every field marked as set and with
  \<open>approxStrLen\<close> the number of bytes that follow the fixed region: the length of the
  record as given, less the header, the null bytes, the fixed region and the eight bytes
  of the trailer. The constructors strip the trailer and \<open>processV2EncodedStr\<close> then
  computes \<open>approxStrLen\<close> from the size of the stripped buffer, subtracting
  \<open>sizeof(int64_t)\<close> once more. For the example record of 27 bytes, which holds ten
  bytes of string, the buffer has 19 bytes and \<open>approxStrLen\<close> is 2, not
  \<open>27 - 1 - 0 - 8 - 8 = 10\<close>; for a record of 17 bytes with one INT64 field and no
  string it wraps in \<open>size_t\<close> to \<open>2^64 - 8\<close>, not \<open>0\<close>.
\<close>

theorem reseed_subtracts_trailer_twice:
  "\<not> isl (RowWriterV2_encoded (singleSchema (plainField STRING 8)) exampleRecord) \<and>
   length exampleRecord = 27 \<and>
   buf (projr (RowWriterV2_encoded (singleSchema (plainField STRING 8)) exampleRecord))
     = take 19 exampleRecord \<and>
   headerLen (projr (RowWriterV2_encoded (singleSchema (plainField STRING 8)) exampleRecord))
     = 1 \<and>
   numNullBytes (projr (RowWriterV2_encoded (singleSchema (plainField STRING 8)) exampleRecord))
     = 0 \<and>
   schemaSize (singleSchema (plainField STRING 8)) = 8 \<and>
   uint (approxStrLen
           (projr (RowWriterV2_encoded (singleSchema (plainField STRING 8)) exampleRecord)))
     = 2 \<and>
   \<not> isl (RowWriterV2_encoded (singleSchema (plainField INT64 8))
            [0x08, 1, 0, 0, 0, 0, 0, 0, 0, 1, 2, 3, 4, 5, 6, 7, 8]) \<and>
   uint (approxStrLen
           (projr (RowWriterV2_encoded (singleSchema (plainField INT64 8))
                     [0x08, 1, 0, 0, 0, 0, 0, 0, 0, 1, 2, 3, 4, 5, 6, 7, 8])))
     = 18446744073709551608"
  by code_simp

subsection \<open>Lists and the out-of-space rewrite\<close>

text \<open>
  Claim C5. When the out-of-space mode was latched before \<open>finish()\<close>, the payload of
  every list or set written before should remain in the emitted record, with the slot
  of the field still referring to it. \<open>processOutOfSpace\<close> copies header, null bytes and
  fixed region and then appends the strings only: on the schema with a STRING and a
  LIST_INT field, writing the string, the list \<open>[7]\<close> and the string again emits a
  record without the payload \<open>01 00 00 00 07 00 00 00\<close> of the list, whose slot still
  holds the offset 14, now inside the timestamp. Without the second write of the
  string the payload is at offset 14.
\<close>

theorem list_payload_lost_by_processOutOfSpace:
  "emit exampleEnv strListSchema
     [SetValue 0 (StrV [0x61]), SetValue 1 (ListV [IntV 7])] 0
     = Some ([0x08, 13, 0, 0, 0, 1, 0, 0, 0, 14, 0, 0, 0]
             @ [0x61] @ [1, 0, 0, 0, 7, 0, 0, 0] @ [0, 0, 0, 0, 0, 0, 0, 0]) \<and>
   emit exampleEnv strListSchema
     [SetValue 0 (StrV [0x61]), SetValue 1 (ListV [IntV 7]), SetValue 0 (StrV [0x62])] 0
     = Some ([0x08, 13, 0, 0, 0, 1, 0, 0, 0, 14, 0, 0, 0]
             @ [0x62] @ [0, 0, 0, 0, 0, 0, 0, 0])"
  by code_simp

subsection \<open>Null flags, bit by bit\<close>

lemma orBits_nth: "k < 8 \<Longrightarrow> orBits ! k = 2 ^ (7 - k)"
proof -
  assume "k < 8"
  then consider "k = 0" | "k = 1" | "k = 2" | "k = 3" | "k = 4" | "k = 5" | "k = 6" | "k = 7"
    by linarith
  then show ?thesis by cases (simp_all add: orBits_def)
qed

lemma andBits_nth: "k < 8 \<Longrightarrow> andBits ! k = NOT (2 ^ (7 - k))"
proof -
  assume "k < 8"
  then consider "k = 0" | "k = 1" | "k = 2" | "k = 3" | "k = 4" | "k = 5" | "k = 6" | "k = 7"
    by linarith
  then show ?thesis by cases (simp_all add: andBits_def)
qed

lemma test_or_bit:
  fixes b :: byte
  assumes "k < 8" "k' < 8"
  shows "((b OR orBits ! k) AND orBits ! k' \<noteq> 0) \<longleftrightarrow> (b AND orBits ! k' \<noteq> 0) \<or> k = k'"
  using assms
  by (auto simp: orBits_nth and_exp_eq_0_iff_not_bit bit_or_iff bit_exp_iff)

lemma test_and_bit:
  fixes b :: byte
  assumes "k < 8" "k' < 8"
  shows "((b AND andBits ! k) AND orBits ! k' \<noteq> 0) \<longleftrightarrow> (b AND orBits ! k' \<noteq> 0) \<and> k \<noteq> k'"
  using assms
  by (auto simp: orBits_nth andBits_nth and_exp_eq_0_iff_not_bit bit_and_iff bit_not_iff bit_exp_iff)

lemma pos_split: "(q :: nat) = p \<longleftrightarrow> q div 8 = p div 8 \<and> q mod 8 = p mod 8"
  by (metis div_mult_mod_eq)

lemma checkNullBit_setNullBit:
  assumes "headerLen w + p div 8 < length (buf w)"
  shows "checkNullBit q (setNullBit p w) \<longleftrightarrow> checkNullBit q w \<or> q = p"
proof (cases "q div 8 = p div 8")
  case True
  then show ?thesis
    using assms test_or_bit [of "p mod 8" "q mod 8" "buf w ! (headerLen w + p div 8)"]
    by (auto simp: checkNullBit_def setNullBit_def Let_def drop_bit_eq_div byteAt_def
        pos_split [of q p])
next
  case False
  then show ?thesis
    by (auto simp: checkNullBit_def setNullBit_def Let_def drop_bit_eq_div byteAt_def)
qed

lemma checkNullBit_clearNullBit:
  assumes "headerLen w + p div 8 < length (buf w)"
  shows "checkNullBit q (clearNullBit p w) \<longleftrightarrow> checkNullBit q w \<and> q \<noteq> p"
proof (cases "q div 8 = p div 8")
  case True
  then show ?thesis
    using assms test_and_bit [of "p mod 8" "q mod 8" "buf w ! (headerLen w + p div 8)"]
    by (auto simp: checkNullBit_def clearNullBit_def Let_def drop_bit_eq_div byteAt_def
        pos_split [of q p])
next
  case False
  then show ?thesis
    by (auto simp: checkNullBit_def clearNullBit_def Let_def drop_bit_eq_div byteAt_def)
qed


subsection \<open>What a call leaves alone\<close>

lemma frameOn_refl: "frameOn S Q J w w"
  by (simp add: frameOn_def)

lemma frameOn_trans:
  assumes "frameOn S Q J w w1" "frameOn S' Q' J' w1 w2"
  shows "frameOn (S \<union> S') (Q \<union> Q') (J \<union> J') w w2"
proof -
  from assms(1) have a:
    "headerLen w1 = headerLen w" "numNullBytes w1 = numNullBytes w" "finished w1 = finished w"
    "length (isSet w1) = length (isSet w)"
    "\<And>k. k \<notin> J \<Longrightarrow> isSet w1 ! k = isSet w ! k"
    "\<And>k. k < length (isSet w) \<Longrightarrow> isSet w ! k \<Longrightarrow> isSet w1 ! k"
    "length (buf w) \<le> length (buf w1)"
    "\<And>p. headerLen w + numNullBytes w \<le> p \<Longrightarrow> p < length (buf w) \<Longrightarrow> p \<notin> S \<Longrightarrow>
          buf w1 ! p = buf w ! p"
    "\<And>q. q div 8 < numNullBytes w \<Longrightarrow> q \<notin> Q \<Longrightarrow> checkNullBit q w1 = checkNullBit q w"
    "\<exists>extra. strList w1 = strList w @ extra"
    "outOfSpaceStr w \<Longrightarrow> outOfSpaceStr w1"
    unfolding frameOn_def by blast+
  from assms(2) have b:
    "headerLen w2 = headerLen w1" "numNullBytes w2 = numNullBytes w1" "finished w2 = finished w1"
    "length (isSet w2) = length (isSet w1)"
    "\<And>k. k \<notin> J' \<Longrightarrow> isSet w2 ! k = isSet w1 ! k"
    "\<And>k. k < length (isSet w1) \<Longrightarrow> isSet w1 ! k \<Longrightarrow> isSet w2 ! k"
    "length (buf w1) \<le> length (buf w2)"
    "\<And>p. headerLen w1 + numNullBytes w1 \<le> p \<Longrightarrow> p < length (buf w1) \<Longrightarrow> p \<notin> S' \<Longrightarrow>
          buf w2 ! p = buf w1 ! p"
    "\<And>q. q div 8 < numNullBytes w1 \<Longrightarrow> q \<notin> Q' \<Longrightarrow> checkNullBit q w2 = checkNullBit q w1"
    "\<exists>extra. strList w2 = strList w1 @ extra"
    "outOfSpaceStr w1 \<Longrightarrow> outOfSpaceStr w2"
    unfolding frameOn_def by blast+
  have bytes: "buf w2 ! p = buf w ! p"
    if "headerLen w + numNullBytes w \<le> p" "p < length (buf w)" "p \<notin> S \<union> S'" for p
  proof -
    have "buf w2 ! p = buf w1 ! p" using that a(1,2,7) by (intro b(8)) auto
    also have "\<dots> = buf w ! p" using that by (intro a(8)) auto
    finally show ?thesis .
  qed
  have flags: "checkNullBit q w2 = checkNullBit q w"
    if "q div 8 < numNullBytes w" "q \<notin> Q \<union> Q'" for q
    using that a(2) a(9) [of q] b(9) [of q] by auto
  have sets: "isSet w2 ! k = isSet w ! k" if "k \<notin> J \<union> J'" for k
    using that a(5) [of k] b(5) [of k] by auto
  have mon: "isSet w2 ! k" if "k < length (isSet w)" "isSet w ! k" for k
    using that a(4) a(6) [of k] b(6) [of k] by auto
  from a(10) b(10) have ex: "\<exists>extra. strList w2 = strList w @ extra" by auto
  show ?thesis
    unfolding frameOn_def
    using a(1-4,7,11) b(1-4,7,11) bytes flags sets mon ex by (intro conjI allI impI) auto
qed

lemma frameOn_mono:
  "frameOn S Q J w w' \<Longrightarrow> S \<subseteq> S' \<Longrightarrow> Q \<subseteq> Q' \<Longrightarrow> J \<subseteq> J' \<Longrightarrow> frameOn S' Q' J' w w'"
  unfolding frameOn_def by (intro conjI) auto

lemma checkNullBit_cong:
  assumes "headerLen w' = headerLen w"
    and "byteAt (buf w') (headerLen w + q div 8) = byteAt (buf w) (headerLen w + q div 8)"
  shows "checkNullBit q w' = checkNullBit q w"
  using assms by (simp add: checkNullBit_def Let_def drop_bit_eq_div)

lemma frame_memcpy:
  assumes "headerLen w + numNullBytes w \<le> off"
  shows "frameOn {off ..< off + length bs} {} {} w (w\<lparr>buf := memcpy_at (buf w) off bs\<rparr>)"
  using assms unfolding frameOn_def
  by (auto simp: memcpy_at_nth_outside byteAt_def intro!: checkNullBit_cong)

lemma frame_append:
  assumes "headerLen w + numNullBytes w \<le> length (buf w)"
  shows "frameOn {} {} {} w (w\<lparr>buf := buf w @ xs\<rparr>)"
  using assms unfolding frameOn_def
  by (auto simp: nth_append byteAt_def intro!: checkNullBit_cong)

lemma frame_clearNullBit:
  assumes "headerLen w + numNullBytes w \<le> length (buf w)" "p div 8 < numNullBytes w"
  shows "frameOn {} {p} {} w (clearNullBit p w)"
proof -
  have "headerLen w + p div 8 < length (buf w)" using assms by simp
  from checkNullBit_clearNullBit [OF this] assms show ?thesis
    unfolding frameOn_def
    by (auto simp: clearNullBit_def Let_def drop_bit_eq_div)
qed

lemma frame_setNullBit:
  assumes "headerLen w + numNullBytes w \<le> length (buf w)" "p div 8 < numNullBytes w"
  shows "frameOn {} {p} {} w (setNullBit p w)"
proof -
  have "headerLen w + p div 8 < length (buf w)" using assms by simp
  from checkNullBit_setNullBit [OF this] assms show ?thesis
    unfolding frameOn_def
    by (auto simp: setNullBit_def Let_def drop_bit_eq_div)
qed

lemma frame_isSet: "frameOn {} {} {j} w (w\<lparr>isSet := (isSet w)[j := True]\<rparr>)"
  unfolding frameOn_def by (auto simp: checkNullBit_def nth_list_update_lt)

lemma frame_latch: "frameOn {} {} {} w (w\<lparr>outOfSpaceStr := True\<rparr>)"
  unfolding frameOn_def by (auto simp: checkNullBit_def)

lemma frame_strList: "frameOn {} {} {} w (w\<lparr>strList := strList w @ xs\<rparr>)"
  unfolding frameOn_def by (auto simp: checkNullBit_def)

lemma frame_approx: "frameOn {} {} {} w (w\<lparr>approxStrLen := x\<rparr>)"
  unfolding frameOn_def by (auto simp: checkNullBit_def)

lemma frameOn_layout:
  "frameOn S Q J w w' \<Longrightarrow> headerLen w + numNullBytes w \<le> length (buf w) \<Longrightarrow>
   headerLen w' + numNullBytes w' \<le> length (buf w')"
  unfolding frameOn_def by auto

lemma frame_markSet:
  assumes "headerLen w + numNullBytes w \<le> length (buf w)"
    and "nullable f \<Longrightarrow> nullFlagPos f div 8 < numNullBytes w"
  shows "frameOn {} (flagOf f) {j} w (markSet f j w)"
proof (cases "nullable f")
  case False
  then show ?thesis using frame_isSet [of j w] by (simp add: markSet_def flagOf_def Let_def)
next
  case True
  have 1: "frameOn {} {nullFlagPos f} {} w (clearNullBit (nullFlagPos f) w)"
    using assms True by (intro frame_clearNullBit) auto
  from frameOn_trans [OF 1 frame_isSet [of j "clearNullBit (nullFlagPos f) w"]] True
  show ?thesis by (simp add: markSet_def flagOf_def Let_def)
qed

subsection \<open>Typed writers stay inside their slot\<close>

lemma wf_slot:
  assumes "wfSchema sch" "j < length (fieldList sch)"
  shows "headerLen w + numNullBytes w \<le> slotOffset w (fieldList sch ! j)"
    and "slotOffset w (fieldList sch ! j) + fsize (fieldList sch ! j) \<le> base sch w"
    and "slotBytes (fieldList sch ! j) \<le> fsize (fieldList sch ! j)"
  using assms by (auto simp: wfSchema_def slotOffset_def base_def)

lemma wf_flag:
  assumes "wfSchema sch" "wfWriter sch w" "j < length (fieldList sch)"
    "nullable (fieldList sch ! j)"
  shows "nullFlagPos (fieldList sch ! j) div 8 < numNullBytes w"
proof -
  have "nullFlagPos (fieldList sch ! j) < numNullableFields sch"
    using assms by (auto simp: wfSchema_def)
  then show ?thesis
    using assms(2) by (auto simp: wfWriter_def nullBytesFor_def drop_bit_eq_div)
qed

lemma wf_layout:
  "wfWriter sch w \<Longrightarrow> headerLen w + numNullBytes w \<le> length (buf w)"
  by (simp add: wfWriter_def base_def)

lemma wfWriter_frame:
  "frameOn S Q J w w' \<Longrightarrow> wfWriter sch w \<Longrightarrow> wfWriter sch w'"
  unfolding frameOn_def wfWriter_def base_def by auto

lemma storeFixed_frame:
  assumes wf: "wfSchema sch" and ww: "wfWriter sch w" and j: "j < length (fieldList sch)"
    and enc: "\<And>bs. enc (ftype (fieldList sch ! j)) = Inr bs \<Longrightarrow>
                length bs \<le> slotBytes (fieldList sch ! j) \<and> \<not> isStr (fieldList sch ! j)"
    and res: "storeFixed sch j enc w = (r, w')"
  shows "frameOn (slotRange w (fieldList sch ! j)) (flagOf (fieldList sch ! j)) {j} w w'"
    and "isStr (fieldList sch ! j) \<or> r \<noteq> SUCCEEDED \<Longrightarrow> w' = w"
proof -
  let ?f = "fieldList sch ! j"
  show "isStr ?f \<or> r \<noteq> SUCCEEDED \<Longrightarrow> w' = w"
    using res enc by (cases "enc (ftype ?f)") (auto simp: storeFixed_def Let_def)
  show "frameOn (slotRange w ?f) (flagOf ?f) {j} w w'"
  proof (cases "enc (ftype ?f)")
    case (Inl e)
    then have "w' = w" using res by (simp add: storeFixed_def Let_def)
    then show ?thesis by (simp add: frameOn_refl)
  next
    case (Inr bs)
    let ?w1 = "w\<lparr>buf := memcpy_at (buf w) (slotOffset w ?f) bs\<rparr>"
    have w': "w' = markSet ?f j ?w1"
      using res Inr by (simp add: storeFixed_def Let_def)
    have len: "length bs \<le> fsize ?f"
      using enc [OF Inr] wf_slot(3) [OF wf j] by simp
    have 1: "frameOn {slotOffset w ?f ..< slotOffset w ?f + length bs} {} {} w ?w1"
      using wf_slot(1) [OF wf j] by (intro frame_memcpy)
    have 2: "frameOn {} (flagOf ?f) {j} ?w1 (markSet ?f j ?w1)"
      using wf_layout [OF ww] wf_flag [OF wf ww j] by (intro frame_markSet) auto
    show ?thesis
      using frameOn_trans [OF 1 2] len unfolding w'
      by (elim frameOn_mono) (auto simp: slotRange_def)
  qed
qed

lemma timestamp_bytes_len: "timestamp_bytes env v = Inr bs \<Longrightarrow> length bs = 8"
  by (auto simp: timestamp_bytes_def split: option.splits)

lemma int8_bytes_len:
  "int8_bytes env v (ftype f) = Inr bs \<Longrightarrow> length bs \<le> slotBytes f \<and> \<not> isStr f"
  by (cases "ftype f")
     (auto simp: int8_bytes_def slotBytes_def isStr_def split: if_splits)

lemma int16_bytes_len:
  "int16_bytes env v (ftype f) = Inr bs \<Longrightarrow> length bs \<le> slotBytes f \<and> \<not> isStr f"
  by (cases "ftype f")
     (auto simp: int16_bytes_def slotBytes_def isStr_def split: if_splits)

lemma int32_bytes_len:
  "int32_bytes env v (ftype f) = Inr bs \<Longrightarrow> length bs \<le> slotBytes f \<and> \<not> isStr f"
  by (cases "ftype f")
     (auto simp: int32_bytes_def slotBytes_def isStr_def dest: timestamp_bytes_len
        split: if_splits)

lemma int64_bytes_len:
  "int64_bytes env v (ftype f) = Inr bs \<Longrightarrow> length bs \<le> slotBytes f \<and> \<not> isStr f"
  by (cases "ftype f")
     (auto simp: int64_bytes_def slotBytes_def isStr_def dest: timestamp_bytes_len
        split: if_splits)

lemma float_bytes_len:
  "float_bytes env v (ftype f) = Inr bs \<Longrightarrow> length bs \<le> slotBytes f \<and> \<not> isStr f"
  by (cases "ftype f")
     (auto simp: float_bytes_def slotBytes_def isStr_def split: if_splits)

lemma double_bytes_len:
  "double_bytes env v (ftype f) = Inr bs \<Longrightarrow> length bs \<le> slotBytes f \<and> \<not> isStr f"
  by (cases "ftype f")
     (auto simp: double_bytes_def slotBytes_def isStr_def split: if_splits)

lemma date_bytes_len:
  "date_bytes v (ftype f) = Inr bs \<Longrightarrow> length bs \<le> slotBytes f \<and> \<not> isStr f"
  by (cases "ftype f") (auto simp: date_bytes_def slotBytes_def isStr_def)

lemma time_bytes_len:
  "time_bytes v (ftype f) = Inr bs \<Longrightarrow> length bs \<le> slotBytes f \<and> \<not> isStr f"
  by (cases "ftype f") (auto simp: time_bytes_def slotBytes_def isStr_def)

lemma datetime_bytes_len:
  "datetime_bytes v (ftype f) = Inr bs \<Longrightarrow> length bs \<le> slotBytes f \<and> \<not> isStr f"
  by (cases "ftype f") (auto simp: datetime_bytes_def slotBytes_def isStr_def)

lemma duration_bytes_len:
  "duration_bytes v (ftype f) = Inr bs \<Longrightarrow> length bs \<le> slotBytes f \<and> \<not> isStr f"
  by (cases "ftype f") (auto simp: duration_bytes_def slotBytes_def isStr_def)

lemma bool_bytes_len:
  "(if ftype f \<in> {BOOL, INT8, INT16, INT32, INT64}
    then Inr (b2byte v # replicate (intWidth (ftype f) - 1) 0) else Inl TYPE_MISMATCH) = Inr bs \<Longrightarrow>
   length bs \<le> slotBytes f \<and> \<not> isStr f"
  by (cases "ftype f") (auto simp: slotBytes_def isStr_def intWidth_def split: if_splits)

subsection \<open>Consistency of the string slots\<close>

lemma slice_eqI:
  assumes "off + n \<le> length b" "off + n \<le> length b'"
    and "\<And>p. off \<le> p \<Longrightarrow> p < off + n \<Longrightarrow> b' ! p = b ! p"
  shows "slice b' off n = slice b off n"
  unfolding slice_def
  by (rule nth_equalityI) (use assms in auto)

lemma slice_frame:
  assumes "frameOn S Q J w w'" "headerLen w + numNullBytes w \<le> off"
    "off + n \<le> length (buf w)" "{off ..< off + n} \<inter> S = {}"
  shows "slice (buf w') off n = slice (buf w) off n"
proof (rule slice_eqI)
  show "off + n \<le> length (buf w)" by fact
  show "off + n \<le> length (buf w')" using assms(1,3) by (auto simp: frameOn_def)
  fix p assume "off \<le> p" "p < off + n"
  then show "buf w' ! p = buf w ! p"
    using assms unfolding frameOn_def by (auto simp: disjoint_iff)
qed

lemma base_frame: "frameOn S Q J w w' \<Longrightarrow> base sch w' = base sch w"
  by (simp add: frameOn_def base_def)

lemma slotOffset_frame: "frameOn S Q J w w' \<Longrightarrow> slotOffset w' f = slotOffset w f"
  by (simp add: frameOn_def slotOffset_def)

lemma refersTo_frame:
  assumes fr: "frameOn S Q J w w'" and ww: "wfWriter sch w"
    and lo: "headerLen w + numNullBytes w \<le> slotOffset w f"
    and hi: "slotOffset w f + 8 \<le> base sch w"
    and dj: "{slotOffset w f ..< slotOffset w f + 8} \<inter> S = {}"
    and S: "S \<subseteq> {..< base sch w}"
    and r: "refersTo sch w f v"
  shows "refersTo sch w' f v"
proof -
  have bl: "base sch w \<le> length (buf w)" using ww by (simp add: wfWriter_def)
  have slot: "slice (buf w') (slotOffset w f) 8 = slice (buf w) (slotOffset w f) 8"
    using lo hi bl dj by (intro slice_frame [OF fr]) auto
  from r show ?thesis unfolding refersTo_def
  proof (elim disjE exE conjE)
    fix off
    assume a: "slice (buf w) (slotOffset w f) 8 = le_bytes 4 (int off) @ le_bytes 4 (int (length v))"
      "base sch w \<le> off" "off + length v \<le> length (buf w)" "slice (buf w) off (length v) = v"
    have "slice (buf w') off (length v) = slice (buf w) off (length v)"
      using a lo hi S by (intro slice_frame [OF fr]) (auto simp: base_def)
    moreover have "off + length v \<le> length (buf w')"
      using a fr by (auto simp: frameOn_def)
    ultimately show "(\<exists>off. slice (buf w') (slotOffset w' f) 8
                       = le_bytes 4 (int off) @ le_bytes 4 (int (length v)) \<and>
                     base sch w' \<le> off \<and> off + length v \<le> length (buf w') \<and>
                     slice (buf w') off (length v) = v) \<or>
          (outOfSpaceStr w' \<and>
           (\<exists>k<length (strList w').
              slice (buf w') (slotOffset w' f) 8 = le_bytes 4 0 @ le_bytes 4 (int k) \<and>
              strList w' ! k = v))"
      using a slot by (intro disjI1 exI [of _ off]) (simp add: base_frame [OF fr] slotOffset_frame [OF fr])
  next
    fix k
    assume a: "outOfSpaceStr w" "k < length (strList w)"
      "slice (buf w) (slotOffset w f) 8 = le_bytes 4 0 @ le_bytes 4 (int k)" "strList w ! k = v"
    obtain extra where e: "strList w' = strList w @ extra"
      using fr by (auto simp: frameOn_def)
    have "outOfSpaceStr w'" using a fr by (auto simp: frameOn_def)
    moreover have "k < length (strList w')" "strList w' ! k = v"
      using a e by (auto simp: nth_append)
    ultimately show "(\<exists>off. slice (buf w') (slotOffset w' f) 8
                       = le_bytes 4 (int off) @ le_bytes 4 (int (length v)) \<and>
                     base sch w' \<le> off \<and> off + length v \<le> length (buf w') \<and>
                     slice (buf w') off (length v) = v) \<or>
          (outOfSpaceStr w' \<and>
           (\<exists>k<length (strList w').
              slice (buf w') (slotOffset w' f) 8 = le_bytes 4 0 @ le_bytes 4 (int k) \<and>
              strList w' ! k = v))"
      using a slot by (intro disjI2 conjI exI [of _ k]) (simp_all add: slotOffset_frame [OF fr])
  qed
qed

lemma wf_str_slot:
  assumes "wfSchema sch" "i < length (fieldList sch)" "isStr (fieldList sch ! i)"
  shows "headerLen w + numNullBytes w \<le> slotOffset w (fieldList sch ! i)"
    and "slotOffset w (fieldList sch ! i) + 8 \<le> base sch w"
    and "{slotOffset w (fieldList sch ! i) ..< slotOffset w (fieldList sch ! i) + 8}
           \<subseteq> slotRange w (fieldList sch ! i)"
proof -
  have "slotBytes (fieldList sch ! i) = 8"
    using assms(3) by (auto simp: isStr_def slotBytes_def)
  then have "8 \<le> fsize (fieldList sch ! i)"
    using wf_slot(3) [OF assms(1,2)] by simp
  then show "headerLen w + numNullBytes w \<le> slotOffset w (fieldList sch ! i)"
    and "slotOffset w (fieldList sch ! i) + 8 \<le> base sch w"
    and "{slotOffset w (fieldList sch ! i) ..< slotOffset w (fieldList sch ! i) + 8}
           \<subseteq> slotRange w (fieldList sch ! i)"
    using wf_slot(1,2) [OF assms(1,2), of w] by (auto simp: slotRange_def)
qed

lemma wf_slots_disjoint:
  assumes "wfSchema sch" "i < length (fieldList sch)" "j < length (fieldList sch)" "i \<noteq> j"
  shows "slotRange w (fieldList sch ! i) \<inter> slotRange w (fieldList sch ! j) = {}"
proof -
  have "foffset (fieldList sch ! i) + fsize (fieldList sch ! i) \<le> foffset (fieldList sch ! j) \<or>
        foffset (fieldList sch ! j) + fsize (fieldList sch ! j) \<le> foffset (fieldList sch ! i)"
    using assms unfolding wfSchema_def by blast
  then show ?thesis
    by (auto simp: slotRange_def slotOffset_def disjoint_iff)
qed

lemma wf_slotRange_base:
  assumes "wfSchema sch" "j < length (fieldList sch)"
  shows "slotRange w (fieldList sch ! j) \<subseteq> {..< base sch w}"
  using wf_slot(2) [OF assms, of w] by (auto simp: slotRange_def)


lemma settled_frame:
  assumes wf: "wfSchema sch" and ww: "wfWriter sch w" and i: "i < length (fieldList sch)"
    and fr: "frameOn S Q J w w'"
    and Q: "nullable (fieldList sch ! i) \<Longrightarrow> nullFlagPos (fieldList sch ! i) \<notin> Q"
    and st: "settled sch w m i"
  shows "settled sch w' m i"
proof (cases "m i = None")
  case False
  then show ?thesis by (simp add: settled_def)
next
  case True
  with st have n: "nullable (fieldList sch ! i)"
    and b: "checkNullBit (nullFlagPos (fieldList sch ! i)) w"
    by (auto simp: settled_def)
  have "checkNullBit (nullFlagPos (fieldList sch ! i)) w'
          = checkNullBit (nullFlagPos (fieldList sch ! i)) w"
    using fr wf_flag [OF wf ww i n] Q [OF n] by (auto simp: frameOn_def)
  then show ?thesis using n b by (simp add: settled_def)
qed

lemma wf_flags_distinct:
  assumes "wfSchema sch" "i < length (fieldList sch)" "j < length (fieldList sch)" "i \<noteq> j"
    "nullable (fieldList sch ! i)"
  shows "nullFlagPos (fieldList sch ! i) \<notin> flagOf (fieldList sch ! j)"
  using assms unfolding wfSchema_def flagOf_def by auto

lemma consistent_effect:
  assumes wf: "wfSchema sch" and c: "consistent sch w m" and j: "j < length (fieldList sch)"
    and e: "effect sch j s w w'"
  shows "consistent sch w' (case s of Some v \<Rightarrow> m(j := Some v) | None \<Rightarrow> m)"
proof -
  let ?m' = "case s of Some v \<Rightarrow> m(j := Some v) | None \<Rightarrow> m"
  let ?fj = "fieldList sch ! j"
  from c have ww: "wfWriter sch w" by (simp add: consistent_def)
  from e have fr: "frameOn (slotRange w ?fj) (flagOf ?fj) {j} w w'"
    by (simp add: effect_def)
  have ww': "wfWriter sch w'" by (rule wfWriter_frame [OF fr ww])
  have main: "(\<forall>v. ?m' i = Some v \<longrightarrow> refersTo sch w' (fieldList sch ! i) v) \<and>
              (isSet w' ! i \<longrightarrow> settled sch w' ?m' i)"
    if i: "i < length (fieldList sch)" and si: "isStr (fieldList sch ! i)" for i
  proof (cases "i = j")
    case False
    let ?fi = "fieldList sch ! i"
    have mi: "?m' i = m i" using False by (cases s) auto
    have r: "refersTo sch w' ?fi v" if "m i = Some v" for v
    proof -
      have "refersTo sch w ?fi v" using c i si that by (auto simp: consistent_def)
      moreover have "{slotOffset w ?fi ..< slotOffset w ?fi + 8} \<inter> slotRange w ?fj = {}"
        using wf_slots_disjoint [OF wf i j False, of w] wf_str_slot(3) [OF wf i si, of w]
        by blast
      ultimately show ?thesis
        using wf_str_slot(1,2) [OF wf i si, of w] wf_slotRange_base [OF wf j, of w]
        by (intro refersTo_frame [OF fr ww]) auto
    qed
    have s': "settled sch w' ?m' i" if "isSet w' ! i"
    proof -
      have "isSet w ! i" using that fr False by (auto simp: frameOn_def)
      then have "settled sch w m i" using c i si by (auto simp: consistent_def)
      then have "settled sch w' m i"
        using wf_flags_distinct [OF wf i j False]
        by (intro settled_frame [OF wf ww i fr]) auto
      then show ?thesis using mi by (simp add: settled_def)
    qed
    from r s' mi show ?thesis by auto
  next
    case True
    note sj = si [unfolded True]
    show ?thesis
    proof (cases s)
      case (Some v)
      then have "refersTo sch w' ?fj v" using e sj by (simp add: effect_def)
      then show ?thesis using Some True by (simp add: settled_def)
    next
      case None
      then have alt: "frameOn {} {} {} w w' \<or>
             (nullable ?fj \<and> frameOn {} {nullFlagPos ?fj} {j} w w' \<and>
              checkNullBit (nullFlagPos ?fj) w')"
        using e sj by (simp add: effect_def)
      have r: "refersTo sch w' ?fj v" if "m j = Some v" for v
      proof -
        have old: "refersTo sch w ?fj v" using c j sj that by (auto simp: consistent_def)
        from alt obtain Q J where f: "frameOn {} Q J w w'" by blast
        show ?thesis
          using wf_str_slot(1,2) [OF wf j sj, of w] old
          by (intro refersTo_frame [OF f ww]) auto
      qed
      have s': "settled sch w' m j" if "isSet w' ! j"
        using alt
      proof
        assume f0: "frameOn {} {} {} w w'"
        then have "isSet w ! j" using that by (auto simp: frameOn_def)
        then have "settled sch w m j" using c j sj by (auto simp: consistent_def)
        then show ?thesis by (intro settled_frame [OF wf ww j f0]) auto
      next
        assume "nullable ?fj \<and> frameOn {} {nullFlagPos ?fj} {j} w w' \<and>
                checkNullBit (nullFlagPos ?fj) w'"
        then show ?thesis by (simp add: settled_def)
      qed
      from r s' None True show ?thesis by auto
    qed
  qed
  show ?thesis
    unfolding consistent_def using ww' main by blast
qed

subsection \<open>The effect of the string writers\<close>

lemma memcpy_at_append:
  "memcpy_at b off (xs @ ys) = memcpy_at (memcpy_at b off xs) (off + length xs) ys"
  by (induction xs arbitrary: b off) auto

lemma memcpy2_slice:
  assumes "off + 8 \<le> length b" "length xs = 4" "length ys = 4"
  shows "slice (memcpy_at (memcpy_at b off xs) (off + 4) ys) off 8 = xs @ ys"
  using slice_memcpy_same [of off "xs @ ys" b] assms by (simp add: memcpy_at_append)

lemma memcpy2_slice_disjoint:
  assumes "off + 8 \<le> off'" "length xs = 4" "length ys = 4"
  shows "slice (memcpy_at (memcpy_at b off xs) (off + 4) ys) off' n = slice b off' n"
  using assms by (simp add: slice_memcpy_disjoint)

lemma slice_append_right: "slice (b @ v) (length b) (length v) = v"
  by (simp add: slice_def)

lemma writeVarStr_layout:
  "headerLen (writeVarStr f j v w) = headerLen w"
  "numNullBytes (writeVarStr f j v w) = numNullBytes w"
  by (simp_all add: writeVarStr_def Let_def split: prod.splits)

lemma writeVarStr_refersTo:
  assumes ww: "wfWriter sch w"
    and lo: "headerLen w + numNullBytes w \<le> slotOffset w f"
    and hi: "slotOffset w f + 8 \<le> base sch w"
  shows "refersTo sch (writeVarStr f j v w) f v"
proof -
  let ?off = "slotOffset w f"
  let ?w' = "writeVarStr f j v w"
  have bl: "base sch w \<le> length (buf w)" using ww by (simp add: wfWriter_def)
  have so: "slotOffset ?w' f = ?off"
    by (simp add: slotOffset_def writeVarStr_layout)
  have bs: "base sch ?w' = base sch w"
    by (simp add: base_def writeVarStr_layout)
  show ?thesis
  proof (cases "isSet w ! j \<or> outOfSpaceStr w")
    case True
    let ?k = "length (strList w)"
    have b: "buf ?w' = memcpy_at (memcpy_at (buf w) ?off (le_bytes 4 0)) (?off + 4)
                         (le_bytes 4 (int ?k))"
      and sl: "strList ?w' = strList w @ [v]" and o: "outOfSpaceStr ?w'"
      using True by (auto simp: writeVarStr_def Let_def)
    have "slice (buf ?w') ?off 8 = le_bytes 4 0 @ le_bytes 4 (int ?k)"
      unfolding b using hi bl by (intro memcpy2_slice) auto
    then show ?thesis
      unfolding refersTo_def so
      using o sl by (intro disjI2 conjI exI [of _ ?k]) auto
  next
    case False
    let ?L = "length (buf w)"
    have b: "buf ?w' = memcpy_at (memcpy_at (buf w @ v) ?off (le_bytes 4 (int ?L))) (?off + 4)
                         (le_bytes 4 (int (length v)))"
      using False by (auto simp: writeVarStr_def Let_def)
    have 1: "slice (buf ?w') ?off 8 = le_bytes 4 (int ?L) @ le_bytes 4 (int (length v))"
      unfolding b using hi bl by (intro memcpy2_slice) auto
    have "slice (buf ?w') ?L (length v) = slice (buf w @ v) ?L (length v)"
      unfolding b using hi bl by (intro memcpy2_slice_disjoint) auto
    then have 2: "slice (buf ?w') ?L (length v) = v"
      by (simp add: slice_append_right)
    have 3: "?L + length v \<le> length (buf ?w')" unfolding b by simp
    show ?thesis
      unfolding refersTo_def so bs
      using 1 2 3 bl by (intro disjI1 exI [of _ ?L]) auto
  qed
qed

lemma writeVarStr_frame:
  assumes lo: "headerLen w + numNullBytes w \<le> slotOffset w f"
    and bl: "slotOffset w f + 8 \<le> length (buf w)"
  shows "frameOn {slotOffset w f ..< slotOffset w f + 8} {} {} w (writeVarStr f j v w)"
proof -
  have nb: "checkNullBit q (writeVarStr f j v w) = checkNullBit q w" if "q div 8 < numNullBytes w" for q
  proof (rule checkNullBit_cong)
    show "headerLen (writeVarStr f j v w) = headerLen w" by (rule writeVarStr_layout)
    have "headerLen w + q div 8 < slotOffset w f" using that lo by simp
    then show "byteAt (buf (writeVarStr f j v w)) (headerLen w + q div 8)
                 = byteAt (buf w) (headerLen w + q div 8)"
      using bl
      by (auto simp: writeVarStr_def Let_def byteAt_def memcpy_at_nth_outside nth_append)
  qed
  show ?thesis
    unfolding frameOn_def
    using nb lo bl
    by (auto simp: writeVarStr_def Let_def memcpy_at_nth_outside nth_append)
qed


lemma effect_refl: "effect sch j None w w"
  by (simp add: effect_def frameOn_refl)

lemma storeFixed_effect:
  assumes wf: "wfSchema sch" and ww: "wfWriter sch w" and j: "j < length (fieldList sch)"
    and enc: "\<And>bs. enc (ftype (fieldList sch ! j)) = Inr bs \<Longrightarrow>
                length bs \<le> slotBytes (fieldList sch ! j) \<and> \<not> isStr (fieldList sch ! j)"
    and res: "storeFixed sch j enc w = (r, w')"
  shows "effect sch j None w w'"
  using storeFixed_frame [OF wf ww j enc res] by (auto simp: effect_def frameOn_refl)

lemma utf8CutSize_le: "utf8CutSize v n \<le> n"
  by (induction n) (auto simp: le_Suc_eq)

lemma length_strncpy_bytes [simp]: "length (strncpy_bytes v n) = n"
proof -
  have "length (takeWhile (\<lambda>c. c \<noteq> 0) (take n v)) \<le> n"
    using length_takeWhile_le [of "\<lambda>c. c \<noteq> 0" "take n v"] by simp
  then show ?thesis by (simp add: strncpy_bytes_def Let_def)
qed

lemma writeFixedStr_frame:
  assumes lo: "headerLen w + numNullBytes w \<le> slotOffset w f"
  shows "frameOn (slotRange w f) {} {} w (writeFixedStr f v w)"
proof -
  let ?off = "slotOffset w f"
  define len where "len = (if length v > fsize f then utf8CutSize v (fsize f) else length v)"
  have len: "len \<le> fsize f" using utf8CutSize_le [of v "fsize f"] by (auto simp: len_def)
  let ?w1 = "w\<lparr>buf := memcpy_at (buf w) ?off (strncpy_bytes v len)\<rparr>"
  let ?w2 = "?w1\<lparr>buf := memcpy_at (buf ?w1) (?off + len) (replicate (fsize f - len) 0)\<rparr>"
  have 1: "frameOn {?off ..< ?off + length (strncpy_bytes v len)} {} {} w ?w1"
    using lo by (intro frame_memcpy)
  have 2: "frameOn {?off + len ..< ?off + len + length (replicate (fsize f - len) (0::byte))} {} {} ?w1 ?w2"
    using lo by (intro frame_memcpy) simp
  have "writeFixedStr f v w = (if len < fsize f then ?w2 else ?w1)"
    by (simp add: writeFixedStr_def Let_def len_def)
  moreover have "frameOn (slotRange w f) {} {} w ?w1"
    using 1 len by (elim frameOn_mono) (auto simp: slotRange_def)
  moreover have "frameOn (slotRange w f) {} {} w ?w2"
    using frameOn_trans [OF 1 2] len by (elim frameOn_mono) (auto simp: slotRange_def)
  ultimately show ?thesis by simp
qed

lemma write_string_result:
  "write_string sch j v k w = (r, w') \<Longrightarrow>
   (r = SUCCEEDED \<and> isStr (fieldList sch ! j) \<and>
      w' = markSet (fieldList sch ! j) j (writeVarStr (fieldList sch ! j) j v w)) \<or>
   (r = SUCCEEDED \<and> ftype (fieldList sch ! j) = FIXED_STRING \<and>
      w' = markSet (fieldList sch ! j) j (writeFixedStr (fieldList sch ! j) v w)) \<or>
   (r = TYPE_MISMATCH \<and> w' = w)"
  by (cases "ftype (fieldList sch ! j)")
     (auto simp: write_string_def Let_def isStr_def split: if_splits)

lemma write_string_effect:
  assumes wf: "wfSchema sch" and ww: "wfWriter sch w" and j: "j < length (fieldList sch)"
    and res: "write_string sch j v k w = (r, w')"
  shows "effect sch j (if r = SUCCEEDED \<and> isStr (fieldList sch ! j) then Some v else None) w w'"
proof -
  let ?f = "fieldList sch ! j"
  note lay = wf_layout [OF ww]
  have flag: "nullable ?f \<Longrightarrow> nullFlagPos ?f div 8 < numNullBytes w"
    by (rule wf_flag [OF wf ww j])
  from write_string_result [OF res] show ?thesis
  proof (elim disjE conjE)
    assume r: "r = SUCCEEDED" and s: "isStr ?f"
      and w': "w' = markSet ?f j (writeVarStr ?f j v w)"
    let ?w1 = "writeVarStr ?f j v w"
    note sl = wf_str_slot [OF wf j s, of w]
    have bl: "base sch w \<le> length (buf w)" using ww by (simp add: wfWriter_def)
    have 1: "frameOn {slotOffset w ?f ..< slotOffset w ?f + 8} {} {} w ?w1"
      using sl bl by (intro writeVarStr_frame) auto
    have ww1: "wfWriter sch ?w1" by (rule wfWriter_frame [OF 1 ww])
    have 2: "frameOn {} (flagOf ?f) {j} ?w1 (markSet ?f j ?w1)"
      using wf_layout [OF ww1] flag by (intro frame_markSet) (auto simp: writeVarStr_layout)
    have fr: "frameOn (slotRange w ?f) (flagOf ?f) {j} w w'"
      unfolding w' using frameOn_trans [OF 1 2] sl(3) by (elim frameOn_mono) auto
    have r1: "refersTo sch ?w1 ?f v"
      using sl by (intro writeVarStr_refersTo [OF ww]) auto
    have "refersTo sch w' ?f v"
      unfolding w'
      using wf_str_slot(1,2) [OF wf j s, of ?w1] r1
      by (intro refersTo_frame [OF 2 ww1]) auto
    then show ?thesis using fr r s by (simp add: effect_def)
  next
    assume r: "r = SUCCEEDED" and t: "ftype ?f = FIXED_STRING"
      and w': "w' = markSet ?f j (writeFixedStr ?f v w)"
    let ?w1 = "writeFixedStr ?f v w"
    have ns: "\<not> isStr ?f" using t by (simp add: isStr_def)
    have 1: "frameOn (slotRange w ?f) {} {} w ?w1"
      using wf_slot(1) [OF wf j] by (intro writeFixedStr_frame)
    have ww1: "wfWriter sch ?w1" by (rule wfWriter_frame [OF 1 ww])
    have nn: "numNullBytes ?w1 = numNullBytes w" using 1 by (simp add: frameOn_def)
    have 2: "frameOn {} (flagOf ?f) {j} ?w1 (markSet ?f j ?w1)"
      using wf_layout [OF ww1] flag by (intro frame_markSet) (auto simp: nn)
    have fr: "frameOn (slotRange w ?f) (flagOf ?f) {j} w w'"
      unfolding w' using frameOn_trans [OF 1 2] by simp
    then show ?thesis using ns by (simp add: effect_def)
  next
    assume "r = TYPE_MISMATCH" "w' = w"
    then show ?thesis by (simp add: effect_refl)
  qed
qed

lemma write_Geography_effect:
  assumes wf: "wfSchema sch" and ww: "wfWriter sch w" and j: "j < length (fieldList sch)"
    and res: "write_Geography sch j g w = (r, w')"
  shows "effect sch j (if r = SUCCEEDED \<and> isStr (fieldList sch ! j) then Some (g_wkb g) else None) w w'"
proof (cases "geoShape (fieldList sch ! j) \<noteq> ANY \<and>
              shapeCode (geoShape (fieldList sch ! j)) \<noteq> g_shape g")
  case True
  then have "r = TYPE_MISMATCH" "w' = w" using res by (auto simp: write_Geography_def Let_def)
  then show ?thesis by (simp add: effect_refl)
next
  case False
  then have "write_string sch j (g_wkb g) True w = (r, w')"
    using res by (auto simp: write_Geography_def Let_def)
  from write_string_effect [OF wf ww j this] show ?thesis .
qed

subsection \<open>The effect of the list, set and null writers\<close>

lemma writeItem_prefix: "\<exists>extra. snd (writeItem env x vt b) = b @ extra"
  by (cases "(env, x, vt, b)" rule: writeItem.cases) auto

lemma writeListItems_prefix: "\<exists>extra. snd (writeListItems env l vt b) = b @ extra"
proof (induction l arbitrary: b)
  case Nil then show ?case by simp
next
  case (Cons x l)
  obtain r b1 where w: "writeItem env x vt b = (r, b1)" by (cases "writeItem env x vt b")
  obtain e1 where e1: "b1 = b @ e1" using writeItem_prefix [of env x vt b] w by auto
  obtain e2 where e2: "snd (writeListItems env l vt b1) = b1 @ e2" using Cons.IH by blast
  show ?case using w e1 e2 by (cases r) auto
qed

lemma writeSetItems_prefix: "\<exists>extra. snd (writeSetItems env l vt ser b) = b @ extra"
proof (induction l arbitrary: b ser)
  case Nil then show ?case by simp
next
  case (Cons x l)
  obtain r b1 where w: "writeItem env x vt b = (r, b1)" by (cases "writeItem env x vt b")
  obtain e1 where e1: "b1 = b @ e1" using writeItem_prefix [of env x vt b] w by auto
  obtain e2 where e2: "snd (writeSetItems env l vt (x # ser) b1) = b1 @ e2" using Cons.IH by blast
  obtain e3 where e3: "snd (writeSetItems env l vt ser b) = b @ e3" using Cons.IH by blast
  show ?case using w e1 e2 e3 by (cases r) auto
qed

lemma writeList_prefix: "writeList env l vt b = (r, b') \<Longrightarrow> \<exists>extra. b' = b @ extra"
  using writeListItems_prefix [of env l vt b] by (auto simp: writeList_def split: if_splits)

lemma writeSet_prefix: "writeSet env l vt b = (r, b') \<Longrightarrow> \<exists>extra. b' = b @ extra"
  using writeSetItems_prefix [of env l vt "[]" b] by (auto simp: writeSet_def split: if_splits)

lemma latch_simps [simp]:
  "buf (latch w j) = buf w" "headerLen (latch w j) = headerLen w"
  "numNullBytes (latch w j) = numNullBytes w" "isSet (latch w j) = isSet w"
  "strList (latch w j) = strList w"
  by (simp_all add: latch_def)

lemma slotOffset_simps [simp]:
  "slotOffset (latch w j) f = slotOffset w f"
  "slotOffset (w\<lparr>buf := b\<rparr>) f = slotOffset w f"
  by (simp_all add: slotOffset_def)

text \<open>The common shape of the list and set writers.\<close>

lemma container_effect:
  assumes wf: "wfSchema sch" and ww: "wfWriter sch w" and j: "j < length (fieldList sch)"
    and four: "4 \<le> slotBytes (fieldList sch ! j)" and ns: "\<not> isStr (fieldList sch ! j)"
    and w': "w' = markSet (fieldList sch ! j) j
                   ((latch w j)\<lparr>buf := memcpy_at (buf w @ extra)
                      (slotOffset w (fieldList sch ! j)) (le_bytes 4 x)\<rparr>)"
  shows "effect sch j None w w'"
proof -
  let ?f = "fieldList sch ! j"
  let ?w1 = "latch w j"
  let ?w2 = "?w1\<lparr>buf := buf ?w1 @ extra\<rparr>"
  let ?w3 = "?w2\<lparr>buf := memcpy_at (buf ?w2) (slotOffset ?w2 ?f) (le_bytes 4 x)\<rparr>"
  have 1: "frameOn {} {} {} w ?w1"
    using frame_latch [of w] by (simp add: latch_def frameOn_refl)
  have ww1: "wfWriter sch ?w1" by (rule wfWriter_frame [OF 1 ww])
  have 2: "frameOn {} {} {} ?w1 ?w2" by (intro frame_append wf_layout [OF ww1])
  have ww2: "wfWriter sch ?w2" by (rule wfWriter_frame [OF 2 ww1])
  have 3: "frameOn {slotOffset ?w2 ?f ..< slotOffset ?w2 ?f + length (le_bytes 4 x)} {} {} ?w2 ?w3"
    using wf_slot(1) [OF wf j, of ?w2] by (intro frame_memcpy)
  have ww3: "wfWriter sch ?w3" by (rule wfWriter_frame [OF 3 ww2])
  have 4: "frameOn {} (flagOf ?f) {j} ?w3 (markSet ?f j ?w3)"
    using wf_layout [OF ww3] wf_flag [OF wf ww3 j] by (intro frame_markSet) auto
  have so: "slotOffset ?w2 ?f = slotOffset w ?f"
    by simp
  have e: "w' = markSet ?f j ?w3"
    unfolding w' so by simp
  have "frameOn (slotRange w ?f) (flagOf ?f) {j} w w'"
    unfolding e
    using frameOn_trans [OF frameOn_trans [OF frameOn_trans [OF 1 2] 3] 4] four
      wf_slot(3) [OF wf j]
    by (elim frameOn_mono) (auto simp: slotRange_def)
  then show ?thesis using ns by (simp add: effect_def)
qed

lemma container_failure_effect:
  assumes ww: "wfWriter sch w" and w': "w' = (latch w j)\<lparr>buf := buf w @ extra\<rparr>"
  shows "effect sch j None w w'"
proof -
  let ?w1 = "latch w j"
  have 1: "frameOn {} {} {} w ?w1"
    using frame_latch [of w] by (simp add: latch_def frameOn_refl)
  have ww1: "wfWriter sch ?w1" by (rule wfWriter_frame [OF 1 ww])
  have 2: "frameOn {} {} {} ?w1 (?w1\<lparr>buf := buf ?w1 @ extra\<rparr>)"
    by (intro frame_append wf_layout [OF ww1])
  have "frameOn {} {} {} w w'"
    using frameOn_trans [OF 1 2] unfolding w' by simp
  then show ?thesis
    by (auto simp: effect_def elim: frameOn_mono)
qed

lemma write_List_effect:
  assumes wf: "wfSchema sch" and ww: "wfWriter sch w" and j: "j < length (fieldList sch)"
    and res: "write_List env sch j l w = (r, w')"
  shows "effect sch j None w w'"
proof (cases "listElemType (ftype (fieldList sch ! j))")
  case None
  then have "w' = (latch w j)\<lparr>buf := buf w @ le_bytes 4 (int (length l))\<rparr>"
    using res by (auto simp: write_List_def Let_def latch_def)
  then show ?thesis by (rule container_failure_effect [OF ww])
next
  case (Some vt)
  let ?f = "fieldList sch ! j"
  let ?b2 = "buf w @ le_bytes 4 (int (length l))"
  obtain r1 b3 where wl: "writeList env l vt ?b2 = (r1, b3)" by (cases "writeList env l vt ?b2")
  obtain e where e: "b3 = ?b2 @ e" using writeList_prefix [OF wl] by blast
  have t: "4 \<le> slotBytes ?f" "\<not> isStr ?f"
    using Some by (auto simp: listElemType_def slotBytes_def isStr_def split: if_splits)
  show ?thesis
  proof (cases "r1 = SUCCEEDED")
    case True
    have "w' = markSet ?f j ((latch w j)\<lparr>buf := memcpy_at (buf w @ (le_bytes 4 (int (length l)) @ e))
                     (slotOffset w ?f) (le_bytes 4 (int (length (buf w))))\<rparr>)"
      using res Some wl e True by (auto simp: write_List_def Let_def latch_def)
    then show ?thesis by (rule container_effect [OF wf ww j t])
  next
    case False
    have "w' = (latch w j)\<lparr>buf := buf w @ (le_bytes 4 (int (length l)) @ e)\<rparr>"
      using res Some wl e False
      by (cases r1) (auto simp: write_List_def Let_def latch_def)
    then show ?thesis by (rule container_failure_effect [OF ww])
  qed
qed

lemma write_Set_effect:
  assumes wf: "wfSchema sch" and ww: "wfWriter sch w" and j: "j < length (fieldList sch)"
    and res: "write_Set env sch j l w = (r, w')"
  shows "effect sch j None w w'"
proof (cases "setElemType (ftype (fieldList sch ! j))")
  case None
  then have "w' = (latch w j)\<lparr>buf := buf w @ le_bytes 4 (int (length l))\<rparr>"
    using res by (auto simp: write_Set_def Let_def latch_def)
  then show ?thesis by (rule container_failure_effect [OF ww])
next
  case (Some vt)
  let ?f = "fieldList sch ! j"
  let ?b2 = "buf w @ le_bytes 4 (int (length l))"
  obtain r1 b3 where wl: "writeSet env l vt ?b2 = (r1, b3)" by (cases "writeSet env l vt ?b2")
  obtain e where e: "b3 = ?b2 @ e" using writeSet_prefix [OF wl] by blast
  have t: "4 \<le> slotBytes ?f" "\<not> isStr ?f"
    using Some by (auto simp: setElemType_def slotBytes_def isStr_def split: if_splits)
  show ?thesis
  proof (cases "r1 = SUCCEEDED")
    case True
    have "w' = markSet ?f j ((latch w j)\<lparr>buf := memcpy_at (buf w @ (le_bytes 4 (int (length l)) @ e))
                     (slotOffset w ?f) (le_bytes 4 (int (length (buf w))))\<rparr>)"
      using res Some wl e True by (auto simp: write_Set_def Let_def latch_def)
    then show ?thesis by (rule container_effect [OF wf ww j t])
  next
    case False
    have "w' = (latch w j)\<lparr>buf := buf w @ (le_bytes 4 (int (length l)) @ e)\<rparr>"
      using res Some wl e False
      by (cases r1) (auto simp: write_Set_def Let_def latch_def)
    then show ?thesis by (rule container_failure_effect [OF ww])
  qed
qed

lemma setNullBit_effect:
  assumes wf: "wfSchema sch" and ww: "wfWriter sch w" and j: "j < length (fieldList sch)"
    and n: "nullable (fieldList sch ! j)"
    and w': "w' = setNullBit (nullFlagPos (fieldList sch ! j)) w \<or>
             w' = (setNullBit (nullFlagPos (fieldList sch ! j)) w)
                    \<lparr>isSet := (isSet (setNullBit (nullFlagPos (fieldList sch ! j)) w))[j := True]\<rparr>"
  shows "effect sch j None w w'"
proof -
  let ?f = "fieldList sch ! j"
  let ?p = "nullFlagPos ?f"
  let ?w1 = "setNullBit ?p w"
  note fl = wf_flag [OF wf ww j n]
  have 1: "frameOn {} {?p} {} w ?w1"
    using wf_layout [OF ww] fl by (intro frame_setNullBit)
  have 2: "frameOn {} {} {j} ?w1 (?w1\<lparr>isSet := (isSet ?w1)[j := True]\<rparr>)"
    by (rule frame_isSet)
  have b1: "checkNullBit ?p ?w1"
    using wf_layout [OF ww] fl by (subst checkNullBit_setNullBit) auto
  have b2: "checkNullBit ?p (?w1\<lparr>isSet := (isSet ?w1)[j := True]\<rparr>)"
    using b1 by (simp add: checkNullBit_def)
  have f: "frameOn {} {?p} {j} w w'" and b: "checkNullBit ?p w'"
    using w' 1 frameOn_trans [OF 1 2] b1 b2 by (auto elim: frameOn_mono)
  have "frameOn (slotRange w ?f) (flagOf ?f) {j} w w'"
    using f n by (elim frameOn_mono) (auto simp: flagOf_def)
  then show ?thesis using f b n by (simp add: effect_def)
qed

subsection \<open>Every call keeps the writer consistent\<close>

lemma setNull_effect:
  assumes wf: "wfSchema sch" and ww: "wfWriter sch w"
    and res: "setNull sch index w = Inr (r, w')"
  shows "(w' = w \<and> r \<noteq> SUCCEEDED) \<or>
         (\<exists>j < length (fieldList sch). index = int j \<and> effect sch j None w w')"
proof (cases "index < 0 \<or> nat index \<ge> length (fieldList sch) \<or> \<not> nullable (fieldList sch ! nat index)")
  case True
  then show ?thesis using res ww
    by (auto simp: setNull_def wfWriter_def Let_def split: if_splits)
next
  case False
  let ?j = "nat index"
  have j: "?j < length (fieldList sch)" and ij: "index = int ?j"
    and n: "nullable (fieldList sch ! ?j)"
    using False by auto
  have "w' = (setNullBit (nullFlagPos (fieldList sch ! ?j)) w)
                \<lparr>isSet := (isSet (setNullBit (nullFlagPos (fieldList sch ! ?j)) w))[?j := True]\<rparr>"
    using res False ww by (auto simp: setNull_def wfWriter_def Let_def split: if_splits)
  then have "effect sch ?j None w w'"
    by (intro setNullBit_effect [OF wf ww j n]) simp
  then show ?thesis using j ij by blast
qed

lemma write_string_plain:
  "write_string sch j v False w = (SUCCEEDED, w') \<Longrightarrow> isStr (fieldList sch ! j) \<Longrightarrow>
   ftype (fieldList sch ! j) = STRING"
  by (auto simp: write_string_def Let_def isStr_def split: if_splits)

lemma typed_effect:
  assumes wf: "wfSchema sch" and ww: "wfWriter sch w" and j: "j < length (fieldList sch)"
  shows "write_bool sch j b w = (r, w') \<Longrightarrow> effect sch j None w w'"
    and "write_int8 env sch j v8 w = (r, w') \<Longrightarrow> effect sch j None w w'"
    and "write_int16 env sch j v16 w = (r, w') \<Longrightarrow> effect sch j None w w'"
    and "write_int32 env sch j v32 w = (r, w') \<Longrightarrow> effect sch j None w w'"
    and "write_int64 env sch j v64 w = (r, w') \<Longrightarrow> effect sch j None w w'"
    and "write_float env sch j fv w = (r, w') \<Longrightarrow> effect sch j None w w'"
    and "write_double env sch j fv w = (r, w') \<Longrightarrow> effect sch j None w w'"
    and "write_Date sch j d w = (r, w') \<Longrightarrow> effect sch j None w w'"
    and "write_Time sch j t w = (r, w') \<Longrightarrow> effect sch j None w w'"
    and "write_DateTime sch j dt w = (r, w') \<Longrightarrow> effect sch j None w w'"
    and "write_Duration sch j du w = (r, w') \<Longrightarrow> effect sch j None w w'"
  unfolding write_bool_stores write_int8_def write_int16_def write_int32_def write_int64_def
    write_float_def write_double_def write_Date_def write_Time_def write_DateTime_def
    write_Duration_def
  by (erule storeFixed_effect [OF wf ww j, rotated];
      erule bool_bytes_len int8_bytes_len int16_bytes_len int32_bytes_len int64_bytes_len
        float_bytes_len double_bytes_len date_bytes_len time_bytes_len datetime_bytes_len
        duration_bytes_len)+

lemma value_effect:
  assumes wf: "wfSchema sch" and ww: "wfWriter sch w" and j: "j < length (fieldList sch)"
    and res: "(case val of
                 BoolV b \<Rightarrow> write_bool sch j b w
               | IntV v \<Rightarrow> write_int64 env sch j v w
               | FloatV f \<Rightarrow> write_double env sch j f w
               | StrV s \<Rightarrow> write_string sch j s False w
               | DateV d \<Rightarrow> write_Date sch j d w
               | TimeV t \<Rightarrow> write_Time sch j t w
               | DateTimeV dt \<Rightarrow> write_DateTime sch j dt w
               | GeographyV g \<Rightarrow> write_Geography sch j g w
               | DurationV du \<Rightarrow> write_Duration sch j du w
               | ListV l \<Rightarrow> write_List env sch j l w
               | SetV st \<Rightarrow> write_Set env sch j st w
               | _ \<Rightarrow> (TYPE_MISMATCH, w)) = (r, w')"
  shows "effect sch j (if r = SUCCEEDED then strOfValue (fieldList sch ! j) val else None) w w'"
proof (cases val)
  case (StrV s)
  then have ws: "write_string sch j s False w = (r, w')" using res by simp
  have "(r = SUCCEEDED \<and> isStr (fieldList sch ! j)) = (r = SUCCEEDED \<and> ftype (fieldList sch ! j) = STRING)"
    using write_string_plain [of sch j s w w'] ws by (auto simp: isStr_def)
  then show ?thesis
    using write_string_effect [OF wf ww j ws] StrV by (auto simp: strOfValue_def)
next
  case (GeographyV g)
  then have "write_Geography sch j g w = (r, w')" using res by simp
  from write_Geography_effect [OF wf ww j this] show ?thesis
    using GeographyV by (auto simp: strOfValue_def)
qed (use res typed_effect [OF wf ww j] write_List_effect [OF wf ww j] write_Set_effect [OF wf ww j]
     in \<open>auto simp: strOfValue_def effect_refl\<close>)


lemma setValue_effect:
  assumes wf: "wfSchema sch" and ww: "wfWriter sch w"
    and res: "setValue env sch index val w = Inr (r, w')"
  shows "(w' = w \<and> r \<noteq> SUCCEEDED) \<or>
         (\<exists>j < length (fieldList sch). index = int j \<and>
            effect sch j (if r = SUCCEEDED then strOfValue (fieldList sch ! j) val else None) w w')"
proof (cases "index < 0 \<or> nat index \<ge> length (fieldList sch)")
  case True
  then show ?thesis using res ww
    by (auto simp: setValue_def wfWriter_def split: if_splits)
next
  case False
  let ?j = "nat index"
  have j: "?j < length (fieldList sch)" and ij: "index = int ?j" using False by auto
  have nf: "\<not> finished w" using ww by (simp add: wfWriter_def)
  show ?thesis
  proof (cases "\<exists>bad. val = NullValue bad")
    case True
    then obtain bad where nv: "val = NullValue bad" by blast
    show ?thesis
    proof (cases bad)
      case True
      then show ?thesis using res nv False nf by (auto simp: setValue_def)
    next
      case False
      then have "setNull sch index w = Inr (r, w')"
        using res nv \<open>\<not> (index < 0 \<or> nat index \<ge> length (fieldList sch))\<close> nf
        by (auto simp: setValue_def)
      from setNull_effect [OF wf ww this] show ?thesis
        using nv by (auto simp: strOfValue_def)
    qed
  next
    case nn: False
    have "(case val of
                 BoolV b \<Rightarrow> write_bool sch ?j b w
               | IntV v \<Rightarrow> write_int64 env sch ?j v w
               | FloatV f \<Rightarrow> write_double env sch ?j f w
               | StrV s \<Rightarrow> write_string sch ?j s False w
               | DateV d \<Rightarrow> write_Date sch ?j d w
               | TimeV t \<Rightarrow> write_Time sch ?j t w
               | DateTimeV dt \<Rightarrow> write_DateTime sch ?j dt w
               | GeographyV g \<Rightarrow> write_Geography sch ?j g w
               | DurationV du \<Rightarrow> write_Duration sch ?j du w
               | ListV l \<Rightarrow> write_List env sch ?j l w
               | SetV st \<Rightarrow> write_Set env sch ?j st w
               | _ \<Rightarrow> (TYPE_MISMATCH, w)) = (r, w')"
      using res False nf nn by (cases val) (simp_all add: setValue_def Let_def)
    from value_effect [OF wf ww j this] j ij show ?thesis by blast
  qed
qed

lemma setTyped_effect:
  assumes res: "setTyped sch j wr w = Inr (r, w')"
    and e: "\<And>r w'. j < length (fieldList sch) \<Longrightarrow> wr w = (r, w') \<Longrightarrow> effect sch j None w w'"
  shows "(w' = w \<and> r \<noteq> SUCCEEDED) \<or> (j < length (fieldList sch) \<and> effect sch j None w w')"
proof (cases "j < length (fieldList sch)")
  case False
  then show ?thesis using res by (simp add: setTyped_def split: if_splits)
next
  case True
  then have "wr w = (r, w')" using res by (simp add: setTyped_def split: if_splits)
  from e [OF True this] True show ?thesis by simp
qed

lemma opStr_SetValue:
  "j < length (fieldList sch) \<Longrightarrow>
   opStr sch (SetValue (int j) val) i = (if i = j then strOfValue (fieldList sch ! j) val else None)"
  by simp

lemma applyOp_effect:
  assumes wf: "wfSchema sch" and ww: "wfWriter sch w"
    and res: "applyOp env sch op w = Inr (r, w')"
  shows "(w' = w \<and> r \<noteq> SUCCEEDED) \<or>
         (\<exists>j < length (fieldList sch).
            effect sch j (if r = SUCCEEDED then opStr sch op j else None) w w' \<and>
            (\<forall>i. i \<noteq> j \<longrightarrow> opStr sch op i = None))"
proof -
  have plain: ?thesis
    if "(w' = w \<and> r \<noteq> SUCCEEDED) \<or> (j < length (fieldList sch) \<and> effect sch j None w w')"
      and "\<And>i. opStr sch op i = None" for j
    using that by (metis (full_types))
  show ?thesis
  proof (cases op)
    case (SetValue index val)
    then have "setValue env sch index val w = Inr (r, w')" using res by simp
    from setValue_effect [OF wf ww this] show ?thesis
    proof (elim disjE exE conjE)
      assume "w' = w" "r \<noteq> SUCCEEDED"
      then show ?thesis by simp
    next
      fix j assume j: "j < length (fieldList sch)" and i: "index = int j"
        and e: "effect sch j (if r = SUCCEEDED then strOfValue (fieldList sch ! j) val else None) w w'"
      have o: "opStr sch op k = (if k = j then strOfValue (fieldList sch ! j) val else None)" for k
        unfolding SetValue i by (rule opStr_SetValue [OF j])
      have "effect sch j (if r = SUCCEEDED then opStr sch op j else None) w w'"
        using e by (auto simp: o split: if_splits)
      moreover have "\<forall>i. i \<noteq> j \<longrightarrow> opStr sch op i = None"
        by (simp add: o)
      ultimately show ?thesis using j by blast
    qed
  next
    case (SetNull index)
    then have "setNull sch index w = Inr (r, w')" using res by simp
    from setNull_effect [OF wf ww this] have
      "\<exists>j. (w' = w \<and> r \<noteq> SUCCEEDED) \<or> (j < length (fieldList sch) \<and> effect sch j None w w')"
      by blast
    then obtain j where
      "(w' = w \<and> r \<noteq> SUCCEEDED) \<or> (j < length (fieldList sch) \<and> effect sch j None w w')" ..
    then show ?thesis by (rule plain) (simp add: SetNull)
  next
    case (SetInt8 j v)
    then have "setTyped sch j (write_int8 env sch j v) w = Inr (r, w')" using res by simp
    from setTyped_effect [OF this typed_effect(2) [OF wf ww]]
    have "(w' = w \<and> r \<noteq> SUCCEEDED) \<or> (j < length (fieldList sch) \<and> effect sch j None w w')" .
    then show ?thesis by (rule plain) (simp add: SetInt8)
  next
    case (SetInt16 j v)
    then have "setTyped sch j (write_int16 env sch j v) w = Inr (r, w')" using res by simp
    from setTyped_effect [OF this typed_effect(3) [OF wf ww]]
    have "(w' = w \<and> r \<noteq> SUCCEEDED) \<or> (j < length (fieldList sch) \<and> effect sch j None w w')" .
    then show ?thesis by (rule plain) (simp add: SetInt16)
  next
    case (SetInt32 j v)
    then have "setTyped sch j (write_int32 env sch j v) w = Inr (r, w')" using res by simp
    from setTyped_effect [OF this typed_effect(4) [OF wf ww]]
    have "(w' = w \<and> r \<noteq> SUCCEEDED) \<or> (j < length (fieldList sch) \<and> effect sch j None w w')" .
    then show ?thesis by (rule plain) (simp add: SetInt32)
  next
    case (SetFloat j v)
    then have "setTyped sch j (write_float env sch j v) w = Inr (r, w')" using res by simp
    from setTyped_effect [OF this typed_effect(6) [OF wf ww]]
    have "(w' = w \<and> r \<noteq> SUCCEEDED) \<or> (j < length (fieldList sch) \<and> effect sch j None w w')" .
    then show ?thesis by (rule plain) (simp add: SetFloat)
  qed
qed

lemma consistent_applyOp:
  assumes wf: "wfSchema sch" and c: "consistent sch w m"
    and res: "applyOp env sch op w = Inr (r, w')"
  shows "consistent sch w'
           (\<lambda>i. case (if r = SUCCEEDED then opStr sch op i else None) of
                   Some v \<Rightarrow> Some v | None \<Rightarrow> m i)"
proof -
  let ?m' = "\<lambda>i. case (if r = SUCCEEDED then opStr sch op i else None) of
                   Some v \<Rightarrow> Some v | None \<Rightarrow> m i"
  from c have ww: "wfWriter sch w" by (simp add: consistent_def)
  from applyOp_effect [OF wf ww res] show ?thesis
  proof (elim disjE exE conjE)
    assume "w' = w" "r \<noteq> SUCCEEDED"
    then show ?thesis using c by simp
  next
    fix j
    assume j: "j < length (fieldList sch)"
      and e: "effect sch j (if r = SUCCEEDED then opStr sch op j else None) w w'"
      and o: "\<forall>i. i \<noteq> j \<longrightarrow> opStr sch op i = None"
    have "?m' = (case (if r = SUCCEEDED then opStr sch op j else None) of
                   Some v \<Rightarrow> m(j := Some v) | None \<Rightarrow> m)"
    proof (rule ext)
      fix i
      show "?m' i = (case (if r = SUCCEEDED then opStr sch op j else None) of
                   Some v \<Rightarrow> m(j := Some v) | None \<Rightarrow> m) i"
      proof (cases "i = j")
        case True
        then show ?thesis by (auto split: option.splits)
      next
        case False
        then have "opStr sch op i = None" using o by blast
        then show ?thesis using False by (auto split: option.splits)
      qed
    qed
    with consistent_effect [OF wf c j e] show ?thesis by simp
  qed
qed

lemma consistent_applyOps:
  assumes wf: "wfSchema sch"
  shows "consistent sch w m \<Longrightarrow> applyOps env sch ops w = Inr w' \<Longrightarrow>
         consistent sch w'
           (\<lambda>i. case lastWritten env sch ops w i of Some v \<Rightarrow> Some v | None \<Rightarrow> m i)"
proof (induction ops arbitrary: w m)
  case Nil
  then show ?case by simp
next
  case (Cons op ops)
  from Cons.prems(2) obtain r w1 where a: "applyOp env sch op w = Inr (r, w1)"
    and rest: "applyOps env sch ops w1 = Inr w'"
    by (auto split: sum.splits)
  let ?m1 = "\<lambda>i. case (if r = SUCCEEDED then opStr sch op i else None) of
                   Some v \<Rightarrow> Some v | None \<Rightarrow> m i"
  have c1: "consistent sch w1 ?m1" by (rule consistent_applyOp [OF wf Cons.prems(1) a])
  have "(\<lambda>i. case lastWritten env sch ops w1 i of Some v \<Rightarrow> Some v | None \<Rightarrow> ?m1 i)
        = (\<lambda>i. case lastWritten env sch (op # ops) w i of Some v \<Rightarrow> Some v | None \<Rightarrow> m i)"
    using a by (auto simp: fun_eq_iff split: option.splits)
  with Cons.IH [OF c1 rest] show ?case by simp
qed

lemma encodeHeader_len: "encodeHeader ver = Inr (hdr, hlen) \<Longrightarrow> 1 \<le> hlen"
  by (auto simp: encodeHeader_def versionHeader_def split: if_splits)

lemma consistent_new:
  assumes "RowWriterV2 sch = Inr w0"
  shows "consistent sch w0 (\<lambda>i. None)"
proof -
  obtain hdr hlen where h: "encodeHeader (version sch) = Inr (hdr, hlen)"
    using assms by (auto simp: RowWriterV2_def split: sum.splits)
  have w0: "w0 = \<lparr> buf = resize hdr (hlen + nullBytesFor (numNullableFields sch) + schemaSize sch),
                     headerLen = hlen,
                     numNullBytes = nullBytesFor (numNullableFields sch),
                     approxStrLen = 0,
                     finished = False,
                     outOfSpaceStr = False,
                     isSet = replicate (length (fieldList sch)) False,
                     strList = [] \<rparr>"
    using assms h by (simp add: RowWriterV2_def Let_def)
  have "wfWriter sch w0"
    using encodeHeader_len [OF h] by (simp add: w0 wfWriter_def base_def resize_def)
  then show ?thesis
    by (simp add: consistent_def w0)
qed

subsection \<open>Defaults at finish\<close>

lemma enc_str_mismatch:
  assumes s: "isStr f"
  shows "int64_bytes env v64 (ftype f) = Inl TYPE_MISMATCH"
    and "double_bytes env fv (ftype f) = Inl TYPE_MISMATCH"
    and "date_bytes d (ftype f) = Inl TYPE_MISMATCH"
    and "time_bytes t (ftype f) = Inl TYPE_MISMATCH"
    and "datetime_bytes dt (ftype f) = Inl TYPE_MISMATCH"
    and "duration_bytes du (ftype f) = Inl TYPE_MISMATCH"
  using s
  by (auto simp: isStr_def int64_bytes_def double_bytes_def date_bytes_def time_bytes_def
      datetime_bytes_def duration_bytes_def)

lemma storeFixed_mismatch:
  "enc (ftype (fieldList sch ! j)) = Inl e \<Longrightarrow> storeFixed sch j enc w = (e, w)"
  by (simp add: storeFixed_def Let_def)

lemma value_str_success:
  assumes s: "isStr (fieldList sch ! j)"
    and res: "(case val of
                 BoolV b \<Rightarrow> write_bool sch j b w
               | IntV v \<Rightarrow> write_int64 env sch j v w
               | FloatV f \<Rightarrow> write_double env sch j f w
               | StrV s \<Rightarrow> write_string sch j s False w
               | DateV d \<Rightarrow> write_Date sch j d w
               | TimeV t \<Rightarrow> write_Time sch j t w
               | DateTimeV dt \<Rightarrow> write_DateTime sch j dt w
               | GeographyV g \<Rightarrow> write_Geography sch j g w
               | DurationV du \<Rightarrow> write_Duration sch j du w
               | ListV l \<Rightarrow> write_List env sch j l w
               | SetV st \<Rightarrow> write_Set env sch j st w
               | _ \<Rightarrow> (TYPE_MISMATCH, w)) = (SUCCEEDED, w')"
  shows "strOfValue (fieldList sch ! j) val \<noteq> None"
proof (cases val)
  case (BoolV b)
  have "write_bool sch j b w = (TYPE_MISMATCH, w)"
    unfolding write_bool_stores using s
    by (intro storeFixed_mismatch) (auto simp: isStr_def)
  then show ?thesis using res BoolV by simp
next
  case (StrV x)
  then show ?thesis
    using res write_string_plain [OF _ s, of x w w'] by (simp add: strOfValue_def)
next
  case (GeographyV g)
  then show ?thesis using s by (simp add: strOfValue_def)
next
  case (ListV l)
  have "listElemType (ftype (fieldList sch ! j)) = None"
    using s by (auto simp: isStr_def listElemType_def)
  then have "fst (write_List env sch j l w) = TYPE_MISMATCH"
    by (simp add: write_List_mismatch_iff)
  then show ?thesis using res ListV by simp
next
  case (SetV l)
  have "setElemType (ftype (fieldList sch ! j)) = None"
    using s by (auto simp: isStr_def setElemType_def)
  then have "fst (write_Set env sch j l w) = TYPE_MISMATCH"
    by (simp add: write_Set_mismatch_iff)
  then show ?thesis using res SetV by simp
qed (use res enc_str_mismatch [OF s] in
      \<open>auto simp: write_int64_def write_double_def write_Date_def write_Time_def
         write_DateTime_def write_Duration_def storeFixed_mismatch\<close>)

text \<open>One step of the loop of \<open>checkUnsetFields\<close>.\<close>

lemma checkUnsetField_effect:
  assumes wf: "wfSchema sch" and c: "consistent sch w m" and k: "k < length (fieldList sch)"
    and res: "checkUnsetField env sch k w = Inr (SUCCEEDED, w')"
  shows "effect sch k (defaultStr sch w k) w w'"
    and "isStr (fieldList sch ! k) \<Longrightarrow>
         settled sch w' (\<lambda>i. case (if i = k then defaultStr sch w k else None) of
                               Some v \<Rightarrow> Some v | None \<Rightarrow> m i) k"
proof -
  let ?f = "fieldList sch ! k"
  let ?m' = "\<lambda>i. case (if i = k then defaultStr sch w k else None) of
                               Some v \<Rightarrow> Some v | None \<Rightarrow> m i"
  from c have ww: "wfWriter sch w" by (simp add: consistent_def)
  have both: "effect sch k (defaultStr sch w k) w w' \<and> (isStr ?f \<longrightarrow> settled sch w' ?m' k)"
  proof (cases "isSet w ! k")
    case True
    then have "w' = w" using res by (simp add: checkUnsetField_def)
    moreover have "defaultStr sch w k = None" using True by (simp add: defaultStr_def)
    moreover have "isStr ?f \<longrightarrow> settled sch w m k"
      using c k True by (auto simp: consistent_def)
    ultimately show ?thesis by (auto simp: effect_refl settled_def)
  next
    case unset: False
    show ?thesis
    proof (cases "defaultValue ?f")
      case None
      then have n: "nullable ?f" and w': "w' = setNullBit (nullFlagPos ?f) w"
        using res unset by (auto simp: checkUnsetField_def Let_def hasDefault_def split: if_splits)
      have d: "defaultStr sch w k = None" using None by (simp add: defaultStr_def)
      have e: "effect sch k None w w'"
        using w' by (intro setNullBit_effect [OF wf ww k n]) simp
      have "checkNullBit (nullFlagPos ?f) w'"
        unfolding w' using wf_layout [OF ww] wf_flag [OF wf ww k n]
        by (subst checkNullBit_setNullBit) auto
      then show ?thesis using e d n by (simp add: settled_def)
    next
      case (Some dv)
      then have wd: "writeDefault env sch k ?f dv w = Inr (SUCCEEDED, w')"
        using res unset by (auto simp: checkUnsetField_def Let_def hasDefault_def)
      have ds: "defaultStr sch w k = strOfValue ?f dv"
        using Some unset k by (simp add: defaultStr_def)
      show ?thesis
      proof (cases "\<exists>bad. dv = NullValue bad")
        case True
        then obtain bad where nv: "dv = NullValue bad" by blast
        have n: "nullable ?f" using wf k Some nv by (auto simp: wfSchema_def)
        have w': "w' = setNullBit (nullFlagPos ?f) w"
          using wd nv by (simp add: writeDefault_def)
        have e: "effect sch k None w w'"
          using w' by (intro setNullBit_effect [OF wf ww k n]) simp
        have "checkNullBit (nullFlagPos ?f) w'"
          unfolding w' using wf_layout [OF ww] wf_flag [OF wf ww k n]
          by (subst checkNullBit_setNullBit) auto
        then show ?thesis using e ds nv n by (simp add: settled_def strOfValue_def)
      next
        case False
        have v: "(case dv of
                 BoolV b \<Rightarrow> write_bool sch k b w
               | IntV v \<Rightarrow> write_int64 env sch k v w
               | FloatV f \<Rightarrow> write_double env sch k f w
               | StrV s \<Rightarrow> write_string sch k s False w
               | DateV d \<Rightarrow> write_Date sch k d w
               | TimeV t \<Rightarrow> write_Time sch k t w
               | DateTimeV dt \<Rightarrow> write_DateTime sch k dt w
               | GeographyV g \<Rightarrow> write_Geography sch k g w
               | DurationV du \<Rightarrow> write_Duration sch k du w
               | ListV l \<Rightarrow> write_List env sch k l w
               | SetV st \<Rightarrow> write_Set env sch k st w
               | _ \<Rightarrow> (TYPE_MISMATCH, w)) = (SUCCEEDED, w')"
          using wd False by (cases dv) (simp_all add: writeDefault_def)
        from value_effect [OF wf ww k v] have e: "effect sch k (defaultStr sch w k) w w'"
          by (simp add: ds)
        have "isStr ?f \<longrightarrow> defaultStr sch w k \<noteq> None"
          using value_str_success [OF _ v] ds by auto
        then show ?thesis using e by (auto simp: settled_def)
      qed
    qed
  qed
  from both show "effect sch k (defaultStr sch w k) w w'" by blast
  from both show "isStr ?f \<Longrightarrow> settled sch w' ?m' k" by blast
qed

lemma effect_frame:
  "effect sch j s w w' \<Longrightarrow>
   frameOn (slotRange w (fieldList sch ! j)) (flagOf (fieldList sch ! j)) {j} w w'"
  by (simp add: effect_def)

lemma slotRange_frame: "frameOn S Q J w w' \<Longrightarrow> slotRange w' f = slotRange w f"
  by (simp add: slotRange_def slotOffset_frame)

lemma checkUnsetField_nullbit:
  assumes wf: "wfSchema sch" and ww: "wfWriter sch w" and k: "k < length (fieldList sch)"
    and n: "nullable (fieldList sch ! k)" and na: "nullAtFinish sch w k"
    and res: "checkUnsetField env sch k w = Inr (SUCCEEDED, w')"
  shows "checkNullBit (nullFlagPos (fieldList sch ! k)) w'"
proof -
  let ?f = "fieldList sch ! k"
  have "w' = setNullBit (nullFlagPos ?f) w"
    using res na n
    by (auto simp: checkUnsetField_def Let_def nullAtFinish_def hasDefault_def writeDefault_def)
  then show ?thesis
    using wf_layout [OF ww] wf_flag [OF wf ww k n]
    by (simp add: checkNullBit_setNullBit)
qed

lemma checkUnsetLoop_step:
  assumes "checkUnsetLoop env sch (k # rest) w = Inr (SUCCEEDED, w')"
  obtains w1 where "checkUnsetField env sch k w = Inr (SUCCEEDED, w1)"
    and "checkUnsetLoop env sch rest w1 = Inr (SUCCEEDED, w')"
  using assms by (auto split: sum.splits prod.splits if_splits)

lemma checkUnsetLoop_consistent:
  assumes wf: "wfSchema sch"
  shows "consistent sch w m \<Longrightarrow> set is \<subseteq> {..< length (fieldList sch)} \<Longrightarrow> distinct is \<Longrightarrow>
         checkUnsetLoop env sch is w = Inr (SUCCEEDED, w') \<Longrightarrow>
         consistent sch w' (withDefaults sch w is m) \<and>
         frameOn (\<Union>k \<in> set is. slotRange w (fieldList sch ! k))
                 (\<Union>k \<in> set is. flagOf (fieldList sch ! k)) (set is) w w' \<and>
         (\<forall>i < length (fieldList sch). isStr (fieldList sch ! i) \<longrightarrow>
            i \<in> set is \<or> settled sch w m i \<longrightarrow> settled sch w' (withDefaults sch w is m) i) \<and>
         (\<forall>i \<in> set is. nullable (fieldList sch ! i) \<longrightarrow> nullAtFinish sch w i \<longrightarrow>
            checkNullBit (nullFlagPos (fieldList sch ! i)) w')"
proof (induction "is" arbitrary: w m)
  case Nil
  then have "w' = w" by simp
  moreover have "withDefaults sch w [] m = m" by (simp add: withDefaults_def fun_eq_iff)
  ultimately show ?case using Nil.prems(1) by (simp add: frameOn_refl)
next
  case (Cons k rest)
  from Cons.prems(4) obtain w1 where s1: "checkUnsetField env sch k w = Inr (SUCCEEDED, w1)"
    and l1: "checkUnsetLoop env sch rest w1 = Inr (SUCCEEDED, w')"
    by (rule checkUnsetLoop_step)
  have k: "k < length (fieldList sch)" and rest: "set rest \<subseteq> {..< length (fieldList sch)}"
    and kr: "k \<notin> set rest" and dr: "distinct rest"
    using Cons.prems(2,3) by auto
  let ?fk = "fieldList sch ! k"
  let ?m1 = "\<lambda>i. case (if i = k then defaultStr sch w k else None) of
                    Some v \<Rightarrow> Some v | None \<Rightarrow> m i"
  from Cons.prems(1) have ww: "wfWriter sch w" by (simp add: consistent_def)
  note e = checkUnsetField_effect(1) [OF wf Cons.prems(1) k s1]
  note fr1 = effect_frame [OF e]
  have m1: "?m1 = (case defaultStr sch w k of Some v \<Rightarrow> m(k := Some v) | None \<Rightarrow> m)"
    by (auto simp: fun_eq_iff split: option.splits)
  have c1: "consistent sch w1 ?m1"
    using consistent_effect [OF wf Cons.prems(1) k e] by (simp only: m1)
  have ww1: "wfWriter sch w1" using c1 by (simp add: consistent_def)
  note IH = Cons.IH [OF c1 rest dr l1]
  have set1: "isSet w1 ! i = isSet w ! i" if "i \<noteq> k" for i
    using fr1 that by (auto simp: frameOn_def)
  have d1: "defaultStr sch w1 i = defaultStr sch w i" if "i \<noteq> k" for i
    using set1 [OF that] by (simp add: defaultStr_def)
  have md: "withDefaults sch w1 rest ?m1 = withDefaults sch w (k # rest) m"
  proof (rule ext)
    fix i
    show "withDefaults sch w1 rest ?m1 i = withDefaults sch w (k # rest) m i"
    proof (cases "i = k")
      case True
      then show ?thesis using kr by (auto simp: withDefaults_def split: option.splits)
    next
      case False
      then show ?thesis using d1 [OF False]
        by (auto simp: withDefaults_def split: option.splits)
    qed
  qed
  have A: "consistent sch w' (withDefaults sch w (k # rest) m)"
    using IH md by simp
  have fr2: "frameOn (\<Union>j \<in> set rest. slotRange w1 (fieldList sch ! j))
                 (\<Union>j \<in> set rest. flagOf (fieldList sch ! j)) (set rest) w1 w'"
    using IH by blast
  have B: "frameOn (\<Union>j \<in> set (k # rest). slotRange w (fieldList sch ! j))
                 (\<Union>j \<in> set (k # rest). flagOf (fieldList sch ! j)) (set (k # rest)) w w'"
    using frameOn_trans [OF fr1 fr2] by (simp add: slotRange_frame [OF fr1])
  have C: "settled sch w' (withDefaults sch w (k # rest) m) i"
    if i: "i < length (fieldList sch)" and si: "isStr (fieldList sch ! i)"
      and h: "i \<in> set (k # rest) \<or> settled sch w m i" for i
  proof -
    have "i \<in> set rest \<or> settled sch w1 ?m1 i"
    proof (cases "i \<in> set rest")
      case True then show ?thesis by simp
    next
      case nr: False
      show ?thesis
      proof (cases "i = k")
        case True
        then show ?thesis using checkUnsetField_effect(2) [OF wf Cons.prems(1) k s1] si by simp
      next
        case False
        then have "settled sch w m i" using h nr by simp
        then have "settled sch w1 m i"
          using wf_flags_distinct [OF wf i k False]
          by (intro settled_frame [OF wf ww i fr1]) auto
        then show ?thesis using False by (simp add: settled_def)
      qed
    qed
    with IH i si md show ?thesis by auto
  qed
  have D: "checkNullBit (nullFlagPos (fieldList sch ! i)) w'"
    if i: "i \<in> set (k # rest)" and n: "nullable (fieldList sch ! i)"
      and na: "nullAtFinish sch w i" for i
  proof (cases "i = k")
    case True
    have b1: "checkNullBit (nullFlagPos ?fk) w1"
      using checkUnsetField_nullbit [OF wf ww k _ _ s1] n na True by simp
    have "nullFlagPos ?fk \<notin> (\<Union>j \<in> set rest. flagOf (fieldList sch ! j))"
      using wf_flags_distinct [OF wf k _ _] n True kr rest by (auto simp: subset_iff)
    moreover have "nullFlagPos ?fk div 8 < numNullBytes w1"
      using wf_flag [OF wf ww1 k] n True by simp
    ultimately have "checkNullBit (nullFlagPos ?fk) w' = checkNullBit (nullFlagPos ?fk) w1"
      using fr2 by (auto simp: frameOn_def)
    then show ?thesis using b1 True by simp
  next
    case False
    then have "i \<in> set rest" using i by simp
    moreover have "nullAtFinish sch w1 i" using na set1 [OF False] by (simp add: nullAtFinish_def)
    ultimately show ?thesis using IH n by blast
  qed
  from A B C D show ?case by blast
qed

subsection \<open>The out-of-space rewrite\<close>

lemma le_val_le_bytes: "le_val (le_bytes k (int n)) = n mod 256 ^ k"
proof (induction k arbitrary: n)
  case 0
  then show ?case by simp
next
  case (Suc k)
  have d: "int n div 256 = int (n div 256)" by (simp add: zdiv_int)
  have u: "unat (word_of_nat n :: byte) = n mod 256"
    by (simp add: unat_of_nat)
  have "le_val (le_bytes (Suc k) (int n)) = n mod 256 + 256 * ((n div 256) mod 256 ^ k)"
    using Suc [of "n div 256"] by (simp add: d u)
  also have "\<dots> = n mod 256 ^ Suc k"
    by (simp add: mod_mult2_eq)
  finally show ?case .
qed

lemma load_int32_le:
  assumes "slice b off 4 = le_bytes 4 (int n)" "n < 2 ^ 31"
  shows "load_int32 b off = int n"
proof -
  have "le_val (take 4 (drop off b)) = n mod 256 ^ 4"
    using assms(1) le_val_le_bytes [of 4 n] by (simp add: slice_def)
  moreover have "n mod 256 ^ 4 = n" using assms(2) by simp
  ultimately show ?thesis using assms(2) by (simp add: load_int32_def Let_def)
qed

lemma slice_split8:
  assumes "slice b off 8 = xs @ ys" "length xs = 4" "length ys = 4"
  shows "slice b off 4 = xs" and "slice b (off + 4) 4 = ys"
proof -
  have "slice b off 4 = take 4 (slice b off 8)"
    by (simp add: slice_def)
  then show "slice b off 4 = xs" using assms by simp
  have "slice b (off + 4) 4 = drop 4 (slice b off 8)"
    by (simp add: slice_def drop_take add.commute)
  then show "slice b (off + 4) 4 = ys" using assms by simp
qed

lemma load_slot:
  assumes "slice b off 8 = le_bytes 4 (int n) @ le_bytes 4 (int k)" "n < 2 ^ 31" "k < 2 ^ 31"
  shows "load_int32 b off = int n" and "load_int32 b (off + 4) = int k"
  using slice_split8 [OF assms(1)] assms(2,3) by (auto intro: load_int32_le)


text \<open>What \<open>processOutOfSpace\<close> does for one STRING or GEOGRAPHY field.\<close>

lemma processStr_result:
  assumes wf: "wfSchema sch" and c: "consistent sch w m" and k: "k < length (fieldList sch)"
    and s: "isStr (fieldList sch ! k)" and st: "settled sch w m k"
    and sz: "length (buf w) < 2 ^ 31" "length (strList w) < 2 ^ 31"
  shows "processStr w (fieldList sch ! k) temp =
           Inr (if nullable (fieldList sch ! k) \<and> checkNullBit (nullFlagPos (fieldList sch ! k)) w
                then memcpy_at (memcpy_at temp (slotOffset w (fieldList sch ! k)) (le_bytes 4 0))
                       (slotOffset w (fieldList sch ! k) + 4) (le_bytes 4 0)
                else memcpy_at (memcpy_at (temp @ the (m k)) (slotOffset w (fieldList sch ! k))
                                  (le_bytes 4 (int (length temp))))
                       (slotOffset w (fieldList sch ! k) + 4)
                       (le_bytes 4 (int (length (the (m k))))))"
proof (cases "nullable (fieldList sch ! k) \<and> checkNullBit (nullFlagPos (fieldList sch ! k)) w")
  case True
  then show ?thesis using s by (auto simp: processStr_def isStr_def Let_def)
next
  case False
  let ?f = "fieldList sch ! k"
  let ?so = "slotOffset w ?f"
  from st False obtain v where mv: "m k = Some v" by (auto simp: settled_def)
  from c k s mv have r: "refersTo sch w ?f v" by (auto simp: consistent_def)
  from c have ww: "wfWriter sch w" by (simp add: consistent_def)
  have ty: "\<not> (ftype ?f \<noteq> STRING \<and> ftype ?f \<noteq> GEOGRAPHY)" using s by (simp add: isStr_def)
  from r show ?thesis unfolding refersTo_def
  proof (elim disjE exE conjE)
    fix off
    assume a: "slice (buf w) ?so 8 = le_bytes 4 (int off) @ le_bytes 4 (int (length v))"
      "base sch w \<le> off" "off + length v \<le> length (buf w)" "slice (buf w) off (length v) = v"
    have b: "off < 2 ^ 31" "length v < 2 ^ 31" using a(3) sz(1) by auto
    note ld = load_slot [OF a(1) b]
    have pos: "0 < off" using a(2) ww by (simp add: wfWriter_def base_def)
    have "take (length v) (drop off (buf w)) = v" using a(4) by (simp add: slice_def)
    then show ?thesis
      using False ty pos mv by (auto simp: processStr_def Let_def ld)
  next
    fix i
    assume a: "outOfSpaceStr w" "i < length (strList w)"
      "slice (buf w) ?so 8 = le_bytes 4 0 @ le_bytes 4 (int i)" "strList w ! i = v"
    have b: "(0::nat) < 2 ^ 31" "i < 2 ^ 31" using a(2) sz(2) by auto
    have a3: "slice (buf w) ?so 8 = le_bytes 4 (int 0) @ le_bytes 4 (int i)" using a(3) by simp
    note ld = load_slot [OF a3 b]
    show ?thesis
      using False ty mv a(2,4) by (auto simp: processStr_def Let_def ld)
  qed
qed

lemma processStr_other:
  "\<not> isStr f \<Longrightarrow> processStr w f temp = Inr temp"
  by (simp add: processStr_def isStr_def)

lemma canon_simps [simp]:
  "buf (canon w temp) = temp" "headerLen (canon w temp) = headerLen w"
  "numNullBytes (canon w temp) = numNullBytes w" "\<not> outOfSpaceStr (canon w temp)"
  "slotOffset (canon w temp) f = slotOffset w f" "base sch (canon w temp) = base sch w"
  "slotRange (canon w temp) f = slotRange w f"
  by (simp_all add: canon_def slotOffset_def base_def slotRange_def)

lemma wfWriter_canon:
  "wfWriter sch w \<Longrightarrow> base sch w \<le> length temp \<Longrightarrow> wfWriter sch (canon w temp)"
  by (simp add: wfWriter_def canon_def base_def)

lemma canon_buf: "(canon w temp)\<lparr>buf := t\<rparr> = canon w t"
  by (simp add: canon_def)

lemma refersTo_tail:
  "\<not> outOfSpaceStr w \<Longrightarrow> refersTo sch w f v \<Longrightarrow>
   \<exists>off. slice (buf w) (slotOffset w f) 8 = le_bytes 4 (int off) @ le_bytes 4 (int (length v)) \<and>
         base sch w \<le> off \<and> off + length v \<le> length (buf w) \<and>
         slice (buf w) off (length v) = v"
  by (auto simp: refersTo_def)

lemma canon_frame_null:
  assumes lo: "headerLen w + numNullBytes w \<le> slotOffset w f"
  shows "frameOn {slotOffset w f ..< slotOffset w f + 8} {} {} (canon w temp)
           (canon w (memcpy_at (memcpy_at temp (slotOffset w f) (le_bytes 4 x))
                      (slotOffset w f + 4) (le_bytes 4 y)))"
proof -
  let ?so = "slotOffset w f"
  let ?w1 = "canon w (memcpy_at temp ?so (le_bytes 4 x))"
  have 1: "frameOn {?so ..< ?so + length (le_bytes 4 x)} {} {} (canon w temp) ?w1"
    using frame_memcpy [of "canon w temp" ?so "le_bytes 4 x"] lo by (simp add: canon_buf)
  have 2: "frameOn {?so + 4 ..< ?so + 4 + length (le_bytes 4 y)} {} {} ?w1
             (canon w (memcpy_at (memcpy_at temp ?so (le_bytes 4 x)) (?so + 4) (le_bytes 4 y)))"
    using frame_memcpy [of ?w1 "?so + 4" "le_bytes 4 y"] lo by (simp add: canon_buf)
  from frameOn_trans [OF 1 2] show ?thesis
    by (elim frameOn_mono) auto
qed

lemma canon_frame_str:
  assumes lo: "headerLen w + numNullBytes w \<le> slotOffset w f"
    and bl: "headerLen w + numNullBytes w \<le> length temp"
  shows "frameOn {slotOffset w f ..< slotOffset w f + 8} {} {} (canon w temp)
           (canon w (memcpy_at (memcpy_at (temp @ v) (slotOffset w f) (le_bytes 4 x))
                      (slotOffset w f + 4) (le_bytes 4 y)))"
proof -
  have 1: "frameOn {} {} {} (canon w temp) (canon w (temp @ v))"
    using frame_append [of "canon w temp" v] bl by (simp add: canon_buf)
  from frameOn_trans [OF 1 canon_frame_null [OF lo, of "temp @ v" x y]] show ?thesis by simp
qed

lemma canon_refersTo:
  assumes hi: "slotOffset w f + 8 \<le> base sch w" and bl: "base sch w \<le> length temp"
  shows "refersTo sch
           (canon w (memcpy_at (memcpy_at (temp @ v) (slotOffset w f)
                                  (le_bytes 4 (int (length temp))))
                      (slotOffset w f + 4) (le_bytes 4 (int (length v))))) f v"
proof -
  let ?so = "slotOffset w f"
  let ?L = "length temp"
  let ?b = "memcpy_at (memcpy_at (temp @ v) ?so (le_bytes 4 (int ?L))) (?so + 4)
              (le_bytes 4 (int (length v)))"
  have 1: "slice ?b ?so 8 = le_bytes 4 (int ?L) @ le_bytes 4 (int (length v))"
    using hi bl by (intro memcpy2_slice) auto
  have "slice ?b ?L (length v) = slice (temp @ v) ?L (length v)"
    using hi bl by (intro memcpy2_slice_disjoint) auto
  then have 2: "slice ?b ?L (length v) = v" by (simp add: slice_append_right)
  show ?thesis
    unfolding refersTo_def
    using 1 2 bl by (intro disjI1 exI [of _ ?L]) auto
qed


lemma processStrs_consistent:
  assumes wf: "wfSchema sch" and c: "consistent sch w m"
    and st: "\<forall>i < length (fieldList sch). isStr (fieldList sch ! i) \<longrightarrow> settled sch w m i"
    and sz: "length (buf w) < 2 ^ 31" "length (strList w) < 2 ^ 31"
  shows "fieldList sch = pre @ fs \<Longrightarrow> base sch w \<le> length temp \<Longrightarrow>
         (\<forall>i < length pre. isStr (fieldList sch ! i) \<longrightarrow> \<not> isNull sch w i \<longrightarrow>
            refersTo sch (canon w temp) (fieldList sch ! i) (the (m i))) \<Longrightarrow>
         \<exists>temp'. processStrs w fs temp = Inr temp' \<and>
           frameOn (\<Union>i \<in> {length pre ..< length (fieldList sch)}. slotRange w (fieldList sch ! i))
             {} {} (canon w temp) (canon w temp') \<and>
           (\<forall>i < length (fieldList sch). isStr (fieldList sch ! i) \<longrightarrow> \<not> isNull sch w i \<longrightarrow>
              refersTo sch (canon w temp') (fieldList sch ! i) (the (m i)))"
proof (induction fs arbitrary: pre temp)
  case Nil
  then show ?case by (auto simp: frameOn_refl)
next
  case (Cons f rest)
  let ?k = "length pre"
  let ?n = "length (fieldList sch)"
  from Cons.prems(1) have k: "?k < ?n" and f: "fieldList sch ! ?k = f" by auto
  from c have ww: "wfWriter sch w" by (simp add: consistent_def)
  have wwT: "wfWriter sch (canon w temp)" by (rule wfWriter_canon [OF ww Cons.prems(2)])
  have lay: "headerLen w + numNullBytes w \<le> length temp"
    using Cons.prems(2) by (simp add: base_def)
  have step: "\<exists>t1. processStr w f temp = Inr t1 \<and>
                frameOn (slotRange w f) {} {} (canon w temp) (canon w t1) \<and>
                (isStr f \<longrightarrow> \<not> isNull sch w ?k \<longrightarrow> refersTo sch (canon w t1) f (the (m ?k)))"
  proof (cases "isStr f")
    case False
    then show ?thesis by (simp add: processStr_other frameOn_refl)
  next
    case True
    note s = True [folded f]
    note sl = wf_str_slot [OF wf k s, of w, unfolded f]
    have stk: "settled sch w m ?k" using st k s by blast
    note pr = processStr_result [OF wf c k s stk sz, of temp, unfolded f]
    show ?thesis
    proof (cases "isNull sch w ?k")
      case True
      then have "processStr w f temp =
                   Inr (memcpy_at (memcpy_at temp (slotOffset w f) (le_bytes 4 0))
                          (slotOffset w f + 4) (le_bytes 4 0))"
        using pr by (auto simp add: isNull_def f)
      moreover have "frameOn (slotRange w f) {} {} (canon w temp)
            (canon w (memcpy_at (memcpy_at temp (slotOffset w f) (le_bytes 4 0))
                          (slotOffset w f + 4) (le_bytes 4 0)))"
        using canon_frame_null [OF sl(1), of temp 0 0] sl(3) by (elim frameOn_mono) auto
      ultimately show ?thesis using True by simp
    next
      case False
      let ?t1 = "memcpy_at (memcpy_at (temp @ the (m ?k)) (slotOffset w f)
                              (le_bytes 4 (int (length temp))))
                   (slotOffset w f + 4) (le_bytes 4 (int (length (the (m ?k)))))"
      have "processStr w f temp = Inr ?t1"
        using pr False by (auto simp add: isNull_def f)
      moreover have "frameOn (slotRange w f) {} {} (canon w temp) (canon w ?t1)"
        using canon_frame_str [OF sl(1) lay, of "the (m ?k)" "int (length temp)"
            "int (length (the (m ?k)))"] sl(3)
        by (elim frameOn_mono) auto
      moreover have "refersTo sch (canon w ?t1) f (the (m ?k))"
        by (rule canon_refersTo [OF sl(2) Cons.prems(2)])
      ultimately show ?thesis by simp
    qed
  qed
  then obtain t1 where p1: "processStr w f temp = Inr t1"
    and fr1: "frameOn (slotRange w f) {} {} (canon w temp) (canon w t1)"
    and r1: "isStr f \<Longrightarrow> \<not> isNull sch w ?k \<Longrightarrow> refersTo sch (canon w t1) f (the (m ?k))"
    by blast
  have bl1: "base sch w \<le> length t1"
    using fr1 Cons.prems(2) by (auto simp: frameOn_def)
  have pre1: "\<forall>i < length (pre @ [f]). isStr (fieldList sch ! i) \<longrightarrow> \<not> isNull sch w i \<longrightarrow>
            refersTo sch (canon w t1) (fieldList sch ! i) (the (m i))"
  proof (intro allI impI)
    fix i assume i: "i < length (pre @ [f])" and si: "isStr (fieldList sch ! i)"
      and nn: "\<not> isNull sch w i"
    show "refersTo sch (canon w t1) (fieldList sch ! i) (the (m i))"
    proof (cases "i = ?k")
      case True
      then show ?thesis using r1 si nn f by simp
    next
      case False
      then have ik: "i < ?k" using i by simp
      then have i': "i < ?n" using k by simp
      have old: "refersTo sch (canon w temp) (fieldList sch ! i) (the (m i))"
        using Cons.prems(3) ik si nn by blast
      have dj: "{slotOffset w (fieldList sch ! i) ..< slotOffset w (fieldList sch ! i) + 8}
                  \<inter> slotRange w f = {}"
        using wf_slots_disjoint [OF wf i' k False, of w] wf_str_slot(3) [OF wf i' si, of w] f
        by auto
      show ?thesis
        using wf_str_slot(1,2) [OF wf i' si, of w] dj wf_slotRange_base [OF wf k, of w] f old
        by (intro refersTo_frame [OF fr1 wwT]) auto
    qed
  qed
  from Cons.prems(1) have split: "fieldList sch = (pre @ [f]) @ rest" by simp
  from Cons.IH [OF split bl1 pre1] obtain temp' where
    p2: "processStrs w rest t1 = Inr temp'"
    and fr2: "frameOn (\<Union>i \<in> {length (pre @ [f]) ..< ?n}. slotRange w (fieldList sch ! i))
                {} {} (canon w t1) (canon w temp')"
    and r2: "\<forall>i < ?n. isStr (fieldList sch ! i) \<longrightarrow> \<not> isNull sch w i \<longrightarrow>
              refersTo sch (canon w temp') (fieldList sch ! i) (the (m i))"
    by blast
  have "processStrs w (f # rest) temp = Inr temp'" using p1 p2 by simp
  moreover have "frameOn (\<Union>i \<in> {?k ..< ?n}. slotRange w (fieldList sch ! i)) {} {}
                   (canon w temp) (canon w temp')"
  proof -
    have "slotRange w f \<union> (\<Union>i \<in> {length (pre @ [f]) ..< ?n}. slotRange w (fieldList sch ! i))
            \<subseteq> (\<Union>i \<in> {?k ..< ?n}. slotRange w (fieldList sch ! i))"
    proof
      fix x
      assume "x \<in> slotRange w f \<union>
                (\<Union>i \<in> {length (pre @ [f]) ..< ?n}. slotRange w (fieldList sch ! i))"
      then consider "x \<in> slotRange w (fieldList sch ! ?k)"
        | j where "Suc ?k \<le> j" "j < ?n" "x \<in> slotRange w (fieldList sch ! j)"
        using f by auto
      then show "x \<in> (\<Union>i \<in> {?k ..< ?n}. slotRange w (fieldList sch ! i))"
      proof cases
        case 1
        then show ?thesis using k by (intro UN_I [of ?k]) auto
      next
        case 2
        then show ?thesis by (intro UN_I [of j]) auto
      qed
    qed
    with frameOn_trans [OF fr1 fr2] show ?thesis
      by (elim frameOn_mono) auto
  qed
  ultimately show ?case using r2 by blast
qed

subsection \<open>Sets: the count and the payload\<close>

lemma le_bytes_cong:
  "v mod 256 ^ n = v' mod 256 ^ n \<Longrightarrow> le_bytes n v = le_bytes n v'"
proof (induction n arbitrary: v v')
  case 0
  then show ?case by simp
next
  case (Suc n)
  have d: "(x mod 256 ^ Suc n) div 256 = (x div 256) mod 256 ^ n" for x :: int
    by (simp add: zmod_zmult2_eq)
  have m: "(x mod 256 ^ Suc n) mod 256 = x mod 256" for x :: int
    by (simp add: mod_mod_cancel)
  from Suc.prems have "v mod 256 = v' mod 256" by (metis m)
  then have h: "(word_of_int v :: byte) = word_of_int v'"
    by (simp add: word_of_int_eq_iff take_bit_eq_mod)
  from Suc.prems have "(v div 256) mod 256 ^ n = (v' div 256) mod 256 ^ n" by (metis d)
  then have "le_bytes n (v div 256) = le_bytes n (v' div 256)" by (rule Suc.IH)
  with h show ?case by simp
qed

lemma sint_low32: "sint (i :: 64 word) mod 256 ^ 4 = uint (ucast i :: 32 word) mod 256 ^ 4"
proof -
  have "take_bit 32 (sint i) = take_bit 32 (uint i)"
    by (simp add: sint_uint take_bit_signed_take_bit)
  moreover have "uint (ucast i :: 32 word) = take_bit 32 (uint i)"
    by (simp add: unsigned_ucast_eq)
  ultimately show ?thesis by (simp add: take_bit_eq_mod)
qed

lemma writeItem_elementBytes:
  "vt \<in> {T_STRING, T_INT, T_FLOAT} \<Longrightarrow> valueType x = vt \<Longrightarrow>
   writeItem env x vt b = (SUCCEEDED, b @ elementBytes env x)"
  using le_bytes_cong [OF sint_low32]
  by (cases x) auto

text \<open>What \<open>noRepeat\<close> says, element by element.\<close>

lemma noRepeat_iff:
  "noRepeat same seen xs \<longleftrightarrow>
     (\<forall>j < length xs. (\<forall>y \<in> set seen. \<not> same y (xs ! j)) \<and>
                       (\<forall>i < j. \<not> same (xs ! i) (xs ! j)))"
proof (induction xs arbitrary: seen)
  case Nil
  then show ?case by simp
next
  case (Cons x xs)
  show ?case
    unfolding noRepeat.simps Cons.IH list_ex_iff
    by (auto simp: nth_Cons less_Suc_eq_0_disj split: nat.splits)
qed

lemma writeSetItems_items:
  assumes vt: "vt \<in> {T_STRING, T_INT, T_FLOAT}"
  shows "\<forall>x \<in> set l. valueType x = vt \<Longrightarrow>
   \<exists>items. writeSetItems env l vt ser b = (SUCCEEDED, b @ concat (map (elementBytes env) items)) \<and>
          subseq items l \<and> noRepeat (sameValue env) ser items \<and>
          (\<forall>x \<in> set l. x \<in> set items \<or> (\<exists>y \<in> set ser \<union> set items. sameValue env y x)) \<and>
          (noRepeat (sameValue env) ser l \<longrightarrow> items = l)"
proof (induction l arbitrary: b ser)
  case Nil
  then show ?case by simp
next
  case (Cons x l)
  then have typed: "\<forall>x \<in> set l. valueType x = vt" and tx: "valueType x = vt" by auto
  show ?case
  proof (cases "list_ex (\<lambda>y. sameValue env y x) ser")
    case True
    from Cons.IH [OF typed, of ser b] obtain items where
      w: "writeSetItems env l vt ser b = (SUCCEEDED, b @ concat (map (elementBytes env) items))"
      and s: "subseq items l" and n: "noRepeat (sameValue env) ser items"
      and c: "\<forall>x \<in> set l. x \<in> set items \<or> (\<exists>y \<in> set ser \<union> set items. sameValue env y x)"
      by blast
    have "\<exists>y \<in> set ser \<union> set items. sameValue env y x"
      using True by (auto simp: list_ex_iff)
    with w s n c True show ?thesis
      by (intro exI [of _ items]) auto
  next
    case False
    note wi = writeItem_elementBytes [OF vt tx, of env b]
    from Cons.IH [OF typed, of "x # ser" "b @ elementBytes env x"] obtain items where
      w: "writeSetItems env l vt (x # ser) (b @ elementBytes env x)
            = (SUCCEEDED, b @ elementBytes env x @ concat (map (elementBytes env) items))"
      and s: "subseq items l" and n: "noRepeat (sameValue env) (x # ser) items"
      and c: "\<forall>z \<in> set l. z \<in> set items \<or>
                (\<exists>y \<in> set (x # ser) \<union> set items. sameValue env y z)"
      and e: "noRepeat (sameValue env) (x # ser) l \<longrightarrow> items = l"
      by auto
    show ?thesis
    proof (intro exI [of _ "x # items"] conjI)
      show "writeSetItems env (x # l) vt ser b
              = (SUCCEEDED, b @ concat (map (elementBytes env) (x # items)))"
        using False wi w by simp
      show "subseq (x # items) (x # l)" using s by simp
      show "noRepeat (sameValue env) ser (x # items)" using False n by simp
      show "\<forall>z \<in> set (x # l). z \<in> set (x # items) \<or>
              (\<exists>y \<in> set ser \<union> set (x # items). sameValue env y z)"
        using c by auto
      show "noRepeat (sameValue env) ser (x # l) \<longrightarrow> x # items = x # l"
        using e by simp
    qed
  qed
qed


lemma write_Set_succeeded:
  assumes ok: "write_Set env sch index st w = (SUCCEEDED, w')"
  shows "\<exists>items.
           w' = markSet (fieldList sch ! index) index
                  ((latch w index)\<lparr>buf :=
                     memcpy_at (buf w @ le_bytes 4 (int (length st))
                                @ concat (map (elementBytes env) items))
                       (slotOffset w (fieldList sch ! index))
                       (le_bytes 4 (int (length (buf w))))\<rparr>) \<and>
           subseq items st \<and> noRepeat (sameValue env) [] items \<and>
           (\<forall>x \<in> set st. x \<in> set items \<or> (\<exists>y \<in> set items. sameValue env y x)) \<and>
           (noRepeat (sameValue env) [] st \<longrightarrow> items = st)"
proof (cases "setElemType (ftype (fieldList sch ! index))")
  case None
  then show ?thesis using ok by (simp add: write_Set_def Let_def)
next
  case (Some vt)
  note vt = setElemType_cases [OF Some]
  have typed: "\<forall>x \<in> set st. valueType x = vt"
    using ok by (auto simp: write_Set_def Let_def Some writeSet_result [OF vt] split: if_splits)
  let ?b = "buf w @ le_bytes 4 (int (length st))"
  from writeSetItems_items [OF vt typed, of env "[]" ?b] obtain items where
    w: "writeSetItems env st vt [] ?b = (SUCCEEDED, ?b @ concat (map (elementBytes env) items))"
    and p: "subseq items st" "noRepeat (sameValue env) [] items"
      "\<forall>x \<in> set st. x \<in> set items \<or> (\<exists>y \<in> set items. sameValue env y x)"
      "noRepeat (sameValue env) [] st \<longrightarrow> items = st"
    by auto
  have "w' = markSet (fieldList sch ! index) index
                  ((latch w index)\<lparr>buf :=
                     memcpy_at (buf w @ le_bytes 4 (int (length st))
                                @ concat (map (elementBytes env) items))
                       (slotOffset w (fieldList sch ! index))
                       (le_bytes 4 (int (length (buf w))))\<rparr>)"
    using ok typed w
    by (auto simp: write_Set_def Let_def Some writeSet_result [OF vt] latch_def slotOffset_def)
  with p show ?thesis by blast
qed

lemma drop_memcpy_at:
  "off + length xs \<le> n \<Longrightarrow> drop n (memcpy_at b off xs) = drop n b"
  by (induction xs arbitrary: b off) (auto simp: drop_update_cancel)

lemma set_payload:
  assumes w': "w' = markSet f index
                  ((latch w index)\<lparr>buf := memcpy_at (buf w @ tail) (slotOffset w f)
                     (le_bytes 4 (int (length (buf w))))\<rparr>)"
    and slot: "slotOffset w f + 4 \<le> length (buf w)"
    and flag: "nullable f \<Longrightarrow> headerLen w + nullFlagPos f div 8 < length (buf w)"
  shows "drop (length (buf w)) (buf w') = tail"
proof -
  have "drop (length (buf w)) (buf w')
          = drop (length (buf w))
              (memcpy_at (buf w @ tail) (slotOffset w f) (le_bytes 4 (int (length (buf w)))))"
    using flag by (auto simp: w' buf_markSet buf_clearNullBit drop_update_cancel)
  also have "\<dots> = drop (length (buf w)) (buf w @ tail)"
    using slot by (simp add: drop_memcpy_at)
  finally show ?thesis by simp
qed




lemma set_of_two_NaN:
  "write_Set exampleEnv (singleSchema (plainField SET_FLOAT 4)) 0 [FloatV NaN, FloatV NaN]
     (freshWriter 4)
     = (SUCCEEDED,
        (freshWriter 4)\<lparr>buf := [0x08, 5, 0, 0, 0] @ [2, 0, 0, 0] @ [0, 0, 0, 0] @ [0, 0, 0, 0],
                         isSet := [True]\<rparr>)"
  by code_simp

subsection \<open>The emitted record\<close>

lemma canon_self: "\<not> outOfSpaceStr w \<Longrightarrow> canon w (buf w) = w"
  by (simp add: canon_def)

lemma checkNullBit_canon_take:
  "headerLen w + q div 8 < n \<Longrightarrow> checkNullBit q (canon w (take n (buf w))) = checkNullBit q w"
  by (rule checkNullBit_cong) (auto simp: byteAt_def)

lemma checkNullBit_emitted:
  "headerLen w + q div 8 < length b \<Longrightarrow>
   checkNullBit q (w\<lparr>buf := b @ t, finished := True\<rparr>) = checkNullBit q (canon w b)"
  by (rule checkNullBit_cong) (auto simp: byteAt_def nth_append)

lemma emitted_layout [simp]:
  "slotOffset (w\<lparr>buf := b, finished := True\<rparr>) f = slotOffset w f"
  "base sch (w\<lparr>buf := b, finished := True\<rparr>) = base sch w"
  by (simp_all add: slotOffset_def base_def)

lemma refersTo_emitted:
  assumes r: "refersTo sch (canon w b) f v" and sz: "length b < 2 ^ 31"
    and hi: "slotOffset w f + 8 \<le> base sch w" and bl: "base sch w \<le> length b"
    and lt: "length t = 8"
  shows "int (base sch w) \<le> load_int32 (b @ t) (slotOffset w f) \<and>
         load_int32 (b @ t) (slotOffset w f) \<le>
           int (length (b @ t)) - 8 - load_int32 (b @ t) (slotOffset w f + 4) \<and>
         load_int32 (b @ t) (slotOffset w f + 4) = int (length v) \<and>
         slice (b @ t) (nat (load_int32 (b @ t) (slotOffset w f)))
           (nat (load_int32 (b @ t) (slotOffset w f + 4))) = v"
proof -
  from refersTo_tail [OF _ r] obtain off where
    s: "slice b (slotOffset w f) 8 = le_bytes 4 (int off) @ le_bytes 4 (int (length v))"
    and lo: "base sch w \<le> off" and e: "off + length v \<le> length b"
    and v: "slice b off (length v) = v"
    by auto
  have "slice (b @ t) (slotOffset w f) 8 = slice b (slotOffset w f) 8"
    using hi bl by (intro slice_append) simp
  with s have s': "slice (b @ t) (slotOffset w f) 8 =
                    le_bytes 4 (int off) @ le_bytes 4 (int (length v))" by simp
  have "off < 2 ^ 31" "length v < 2 ^ 31" using e sz by simp_all
  note ld = load_slot [OF s' this]
  have "slice (b @ t) off (length v) = v"
    using v slice_append [OF e, of t] by simp
  then show ?thesis using ld lo e lt by simp
qed

lemma finish_canon:
  assumes wf: "wfSchema sch" and c: "consistent sch w m"
    and st: "\<forall>i < length (fieldList sch). isStr (fieldList sch ! i) \<longrightarrow> settled sch w m i"
    and sz: "length (buf w) < 2 ^ 31" "length (strList w) < 2 ^ 31"
  shows "\<exists>b. (if outOfSpaceStr w then processOutOfSpace sch w else Inr (buf w)) = Inr b \<and>
           base sch w \<le> length b \<and>
           (\<forall>q. q div 8 < numNullBytes w \<longrightarrow> checkNullBit q (canon w b) = checkNullBit q w) \<and>
           (\<forall>i < length (fieldList sch). isStr (fieldList sch ! i) \<longrightarrow> \<not> isNull sch w i \<longrightarrow>
              refersTo sch (canon w b) (fieldList sch ! i) (the (m i)))"
proof (cases "outOfSpaceStr w")
  case False
  from c have ww: "wfWriter sch w" by (simp add: consistent_def)
  have "\<forall>i < length (fieldList sch). isStr (fieldList sch ! i) \<longrightarrow> \<not> isNull sch w i \<longrightarrow>
              refersTo sch w (fieldList sch ! i) (the (m i))"
    using c st by (auto simp: consistent_def settled_def isNull_def)
  then show ?thesis using False ww by (simp add: canon_self wfWriter_def)
next
  case True
  from c have ww: "wfWriter sch w" by (simp add: consistent_def)
  let ?t0 = "take (base sch w) (buf w)"
  have l0: "length ?t0 = base sch w" using ww by (simp add: wfWriter_def)
  have a: "fieldList sch = [] @ fieldList sch" by simp
  have b: "base sch w \<le> length ?t0" using l0 by simp
  have "\<exists>b. processStrs w (fieldList sch) ?t0 = Inr b \<and>
          frameOn (\<Union>i \<in> {0 ..< length (fieldList sch)}. slotRange w (fieldList sch ! i))
               {} {} (canon w ?t0) (canon w b) \<and>
          (\<forall>i < length (fieldList sch). isStr (fieldList sch ! i) \<longrightarrow> \<not> isNull sch w i \<longrightarrow>
              refersTo sch (canon w b) (fieldList sch ! i) (the (m i)))"
    using processStrs_consistent [OF wf c st sz a b] by simp
  then obtain b where p: "processStrs w (fieldList sch) ?t0 = Inr b"
    and fr: "frameOn (\<Union>i \<in> {0 ..< length (fieldList sch)}. slotRange w (fieldList sch ! i))
               {} {} (canon w ?t0) (canon w b)"
    and r: "\<forall>i < length (fieldList sch). isStr (fieldList sch ! i) \<longrightarrow> \<not> isNull sch w i \<longrightarrow>
              refersTo sch (canon w b) (fieldList sch ! i) (the (m i))"
    by auto
  have "base sch w \<le> length b" using fr l0 by (auto simp: frameOn_def)
  moreover have "checkNullBit q (canon w b) = checkNullBit q w" if "q div 8 < numNullBytes w" for q
  proof -
    have "checkNullBit q (canon w b) = checkNullBit q (canon w ?t0)"
      using fr that by (auto simp: frameOn_def)
    also have "\<dots> = checkNullBit q w"
      using that by (intro checkNullBit_canon_take) (simp add: base_def)
    finally show ?thesis .
  qed
  ultimately show ?thesis using True p r by (simp add: processOutOfSpace_def base_def)
qed

lemma finish_succeeded:
  assumes "finish env sch ts w = Inr (SUCCEEDED, w')"
  obtains w1 b where "\<not> finished w" "checkUnsetFields env sch w = Inr (SUCCEEDED, w1)"
    "(if outOfSpaceStr w1 then processOutOfSpace sch w1 else Inr (buf w1)) = Inr b"
    "w' = w1\<lparr>buf := b @ le_bytes 8 ts, finished := True\<rparr>"
  using assms unfolding finish_def
  by (auto split: if_splits sum.splits prod.splits)

lemma lastValue_withDefaults:
  "withDefaults sch w [0 ..< length (fieldList sch)]
     (\<lambda>i. case lastWritten env sch ops w0 i of Some v \<Rightarrow> Some v | None \<Rightarrow> None) =
   lastValue env sch ops w0 w"
  by (rule ext) (auto simp: withDefaults_def lastValue_def defaultStr_def split: option.splits)

lemma emitted_strings:
  assumes wf: "wfSchema sch"
    and c: "consistent sch w m"
    and cu: "checkUnsetFields env sch w = Inr (r1, w1)"
    and sz: "length (buf w1) < 2 ^ 31" "length (strList w1) < 2 ^ 31"
    and fin: "finish env sch ts w = Inr (SUCCEEDED, w')"
    and sz': "length (buf w') < 2 ^ 31"
    and i: "i < length (fieldList sch)" and s: "isStr (fieldList sch ! i)"
    and nn: "\<not> isNull sch w' i"
  shows "\<exists>v. withDefaults sch w [0 ..< length (fieldList sch)] m i = Some v \<and>
           int (base sch w') \<le> load_int32 (buf w') (slotOffset w' (fieldList sch ! i)) \<and>
           load_int32 (buf w') (slotOffset w' (fieldList sch ! i)) \<le>
             int (length (buf w')) - 8 - load_int32 (buf w') (slotOffset w' (fieldList sch ! i) + 4) \<and>
           load_int32 (buf w') (slotOffset w' (fieldList sch ! i) + 4) = int (length v) \<and>
           slice (buf w') (nat (load_int32 (buf w') (slotOffset w' (fieldList sch ! i))))
             (nat (load_int32 (buf w') (slotOffset w' (fieldList sch ! i) + 4))) = v"
proof -
  let ?n = "length (fieldList sch)"
  let ?m = "withDefaults sch w [0 ..< ?n] m"
  let ?f = "fieldList sch ! i"
  from fin obtain w1' b where nf: "\<not> finished w"
    and cu': "checkUnsetFields env sch w = Inr (SUCCEEDED, w1')"
    and pb: "(if outOfSpaceStr w1' then processOutOfSpace sch w1' else Inr (buf w1')) = Inr b"
    and w': "w' = w1'\<lparr>buf := b @ le_bytes 8 ts, finished := True\<rparr>"
    by (rule finish_succeeded)
  from cu cu' have eq: "w1' = w1" by simp
  note cu' = cu' [unfolded eq] and pb = pb [unfolded eq] and w' = w' [unfolded eq]
  from cu' have loop: "checkUnsetLoop env sch [0 ..< ?n] w = Inr (SUCCEEDED, w1)"
    by (simp add: checkUnsetFields_def)
  have "set [0 ..< ?n] \<subseteq> {..< ?n}" "distinct [0 ..< ?n]" by auto
  from checkUnsetLoop_consistent [OF wf c this loop]
  have c1: "consistent sch w1 ?m"
    and st1: "\<forall>i < ?n. isStr (fieldList sch ! i) \<longrightarrow> settled sch w1 ?m i"
    by auto
  from c1 have ww1: "wfWriter sch w1" by (simp add: consistent_def)
  from finish_canon [OF wf c1 st1 sz] pb obtain
    bl: "base sch w1 \<le> length b"
    and nb: "\<forall>q. q div 8 < numNullBytes w1 \<longrightarrow> checkNullBit q (canon w1 b) = checkNullBit q w1"
    and r: "\<forall>i < ?n. isStr (fieldList sch ! i) \<longrightarrow> \<not> isNull sch w1 i \<longrightarrow>
              refersTo sch (canon w1 b) (fieldList sch ! i) (the (?m i))"
    by auto
  have null: "isNull sch w' i = isNull sch w1 i"
  proof (cases "nullable ?f")
    case False
    then show ?thesis by (simp add: isNull_def)
  next
    case True
    note q = wf_flag [OF wf ww1 i True]
    then have "headerLen w1 + nullFlagPos ?f div 8 < length b"
      using bl by (simp add: base_def)
    from checkNullBit_emitted [OF this, of "le_bytes 8 ts"] nb q
    show ?thesis by (simp add: isNull_def w')
  qed
  with nn have nn1: "\<not> isNull sch w1 i" by simp
  with st1 i s have "?m i \<noteq> None" by (auto simp: settled_def isNull_def)
  then obtain v where v: "?m i = Some v" by auto
  from r i s nn1 v have rv: "refersTo sch (canon w1 b) ?f v" by auto
  have lb: "length b < 2 ^ 31" using sz' by (simp add: w')
  have l8: "length (le_bytes 8 ts) = 8" by (simp add: length_le_bytes)
  note e = refersTo_emitted [OF rv lb wf_str_slot(2) [OF wf i s] bl l8]
  have buf': "buf w' = b @ le_bytes 8 ts" and so': "slotOffset w' ?f = slotOffset w1 ?f"
    and ba': "base sch w' = base sch w1"
    by (simp_all add: w')
  show ?thesis
    unfolding buf' so' ba' using e v by blast
qed



subsection \<open>Unset fields at finish\<close>

lemma checkUnsetField_frame:
  assumes wf: "wfSchema sch" and ww: "wfWriter sch w" and k: "k < length (fieldList sch)"
    and res: "checkUnsetField env sch k w = Inr (SUCCEEDED, w')"
  shows "frameOn (slotRange w (fieldList sch ! k)) (flagOf (fieldList sch ! k)) {k} w w'"
proof (cases "isSet w ! k")
  case True
  then have "w' = w" using res by (simp add: checkUnsetField_def)
  then show ?thesis by (simp add: frameOn_refl)
next
  case unset: False
  let ?f = "fieldList sch ! k"
  show ?thesis
  proof (cases "defaultValue ?f")
    case None
    then have n: "nullable ?f" and w': "w' = setNullBit (nullFlagPos ?f) w"
      using res unset by (auto simp: checkUnsetField_def Let_def hasDefault_def split: if_splits)
    have "effect sch k None w w'"
      using w' by (intro setNullBit_effect [OF wf ww k n]) simp
    then show ?thesis by (rule effect_frame)
  next
    case (Some dv)
    then have wd: "writeDefault env sch k ?f dv w = Inr (SUCCEEDED, w')"
      using res unset by (auto simp: checkUnsetField_def Let_def hasDefault_def)
    show ?thesis
    proof (cases "\<exists>bad. dv = NullValue bad")
      case True
      then obtain bad where nv: "dv = NullValue bad" by blast
      have n: "nullable ?f" using wf k Some nv by (auto simp: wfSchema_def)
      have w': "w' = setNullBit (nullFlagPos ?f) w"
        using wd nv by (simp add: writeDefault_def)
      have "effect sch k None w w'"
        using w' by (intro setNullBit_effect [OF wf ww k n]) simp
      then show ?thesis by (rule effect_frame)
    next
      case False
      have v: "(case dv of
                 BoolV b \<Rightarrow> write_bool sch k b w
               | IntV v \<Rightarrow> write_int64 env sch k v w
               | FloatV f \<Rightarrow> write_double env sch k f w
               | StrV s \<Rightarrow> write_string sch k s False w
               | DateV d \<Rightarrow> write_Date sch k d w
               | TimeV t \<Rightarrow> write_Time sch k t w
               | DateTimeV dt \<Rightarrow> write_DateTime sch k dt w
               | GeographyV g \<Rightarrow> write_Geography sch k g w
               | DurationV du \<Rightarrow> write_Duration sch k du w
               | ListV l \<Rightarrow> write_List env sch k l w
               | SetV st \<Rightarrow> write_Set env sch k st w
               | _ \<Rightarrow> (TYPE_MISMATCH, w)) = (SUCCEEDED, w')"
        using wd False by (cases dv) (simp_all add: writeDefault_def)
      show ?thesis by (rule effect_frame [OF value_effect [OF wf ww k v]])
    qed
  qed
qed

lemma checkUnsetLoop_frame:
  assumes wf: "wfSchema sch"
  shows "wfWriter sch w \<Longrightarrow> set is \<subseteq> {..< length (fieldList sch)} \<Longrightarrow> distinct is \<Longrightarrow>
         checkUnsetLoop env sch is w = Inr (SUCCEEDED, w') \<Longrightarrow>
         wfWriter sch w' \<and>
         frameOn (\<Union>k \<in> set is. slotRange w (fieldList sch ! k))
                 (\<Union>k \<in> set is. flagOf (fieldList sch ! k)) (set is) w w' \<and>
         (\<forall>i \<in> set is. nullable (fieldList sch ! i) \<longrightarrow> nullAtFinish sch w i \<longrightarrow>
            checkNullBit (nullFlagPos (fieldList sch ! i)) w')"
proof (induction "is" arbitrary: w)
  case Nil
  then show ?case by (simp add: frameOn_refl)
next
  case (Cons k rest)
  from Cons.prems(4) obtain w1 where s1: "checkUnsetField env sch k w = Inr (SUCCEEDED, w1)"
    and l1: "checkUnsetLoop env sch rest w1 = Inr (SUCCEEDED, w')"
    by (rule checkUnsetLoop_step)
  have k: "k < length (fieldList sch)" and rest: "set rest \<subseteq> {..< length (fieldList sch)}"
    and kr: "k \<notin> set rest" and dr: "distinct rest"
    using Cons.prems(2,3) by auto
  let ?fk = "fieldList sch ! k"
  note ww = Cons.prems(1)
  note fr1 = checkUnsetField_frame [OF wf ww k s1]
  have ww1: "wfWriter sch w1" by (rule wfWriter_frame [OF fr1 ww])
  note IH = Cons.IH [OF ww1 rest dr l1]
  have set1: "isSet w1 ! i = isSet w ! i" if "i \<noteq> k" for i
    using fr1 that by (auto simp: frameOn_def)
  have A: "wfWriter sch w'" using IH by blast
  have fr2: "frameOn (\<Union>j \<in> set rest. slotRange w1 (fieldList sch ! j))
                 (\<Union>j \<in> set rest. flagOf (fieldList sch ! j)) (set rest) w1 w'"
    using IH by blast
  have B: "frameOn (\<Union>j \<in> set (k # rest). slotRange w (fieldList sch ! j))
                 (\<Union>j \<in> set (k # rest). flagOf (fieldList sch ! j)) (set (k # rest)) w w'"
    using frameOn_trans [OF fr1 fr2] by (simp add: slotRange_frame [OF fr1])
  have D: "checkNullBit (nullFlagPos (fieldList sch ! i)) w'"
    if i: "i \<in> set (k # rest)" and n: "nullable (fieldList sch ! i)"
      and na: "nullAtFinish sch w i" for i
  proof (cases "i = k")
    case True
    have b1: "checkNullBit (nullFlagPos ?fk) w1"
      using checkUnsetField_nullbit [OF wf ww k _ _ s1] n na True by simp
    have "nullFlagPos ?fk \<notin> (\<Union>j \<in> set rest. flagOf (fieldList sch ! j))"
      using wf_flags_distinct [OF wf k _ _] n True kr rest by (auto simp: subset_iff)
    moreover have "nullFlagPos ?fk div 8 < numNullBytes w1"
      using wf_flag [OF wf ww1 k] n True by simp
    ultimately have "checkNullBit (nullFlagPos ?fk) w' = checkNullBit (nullFlagPos ?fk) w1"
      using fr2 by (auto simp: frameOn_def)
    then show ?thesis using b1 True by simp
  next
    case False
    then have "i \<in> set rest" using i by simp
    moreover have "nullAtFinish sch w1 i" using na set1 [OF False] by (simp add: nullAtFinish_def)
    ultimately show ?thesis using IH n by blast
  qed
  from A B D show ?case by blast
qed

lemma checkUnsetLoop_append:
  "checkUnsetLoop env sch (xs @ ys) w =
     (case checkUnsetLoop env sch xs w of
        Inl e \<Rightarrow> Inl e
      | Inr (r, w1) \<Rightarrow> if r \<noteq> SUCCEEDED then Inr (r, w1) else checkUnsetLoop env sch ys w1)"
  by (induction xs arbitrary: w) (auto split: sum.splits prod.splits)

lemma processStr_nullbytes:
  assumes "processStr w f temp = Inr b" "headerLen w + numNullBytes w \<le> length temp"
  shows "length temp \<le> length b \<and> (\<forall>p < headerLen w + numNullBytes w. b ! p = temp ! p)"
  using assms
  by (auto simp: processStr_def Let_def slotOffset_def memcpy_at_nth_outside nth_append
      split: if_splits)

lemma processStrs_nullbytes:
  "processStrs w fs temp = Inr b \<Longrightarrow> headerLen w + numNullBytes w \<le> length temp \<Longrightarrow>
   length temp \<le> length b \<and> (\<forall>p < headerLen w + numNullBytes w. b ! p = temp ! p)"
proof (induction fs arbitrary: temp)
  case Nil
  then show ?case by simp
next
  case (Cons f fs)
  from Cons.prems(1) obtain t1 where p1: "processStr w f temp = Inr t1"
    and p2: "processStrs w fs t1 = Inr b"
    by (auto split: sum.splits)
  note a = processStr_nullbytes [OF p1 Cons.prems(2)]
  then have "headerLen w + numNullBytes w \<le> length t1" using Cons.prems(2) by simp
  from Cons.IH [OF p2 this] a show ?case by auto
qed

lemma finish_nullbit:
  assumes fin: "finish env sch ts w = Inr (SUCCEEDED, w')"
    and cu: "checkUnsetFields env sch w = Inr (r1, w1)"
    and ww1: "wfWriter sch w1" and q: "q div 8 < numNullBytes w1"
  shows "checkNullBit q w' = checkNullBit q w1"
proof -
  from fin obtain w1' b where
    cu': "checkUnsetFields env sch w = Inr (SUCCEEDED, w1')"
    and pb: "(if outOfSpaceStr w1' then processOutOfSpace sch w1' else Inr (buf w1')) = Inr b"
    and w': "w' = w1'\<lparr>buf := b @ le_bytes 8 ts, finished := True\<rparr>"
    by (rule finish_succeeded)
  from cu cu' have eq: "w1' = w1" by simp
  note pb = pb [unfolded eq] and w' = w' [unfolded eq]
  have bl: "base sch w1 \<le> length (buf w1)" using ww1 by (simp add: wfWriter_def)
  have "headerLen w1 + q div 8 < length b \<and> b ! (headerLen w1 + q div 8) = buf w1 ! (headerLen w1 + q div 8)"
  proof (cases "outOfSpaceStr w1")
    case False
    then show ?thesis using pb bl q by (auto simp: base_def)
  next
    case True
    let ?t0 = "take (headerLen w1 + numNullBytes w1 + schemaSize sch) (buf w1)"
    have p: "processStrs w1 (fieldList sch) ?t0 = Inr b"
      using pb True by (simp add: processOutOfSpace_def)
    have l0: "headerLen w1 + numNullBytes w1 \<le> length ?t0" using bl by (simp add: base_def)
    from processStrs_nullbytes [OF p l0] q bl show ?thesis by (auto simp: base_def)
  qed
  moreover have "headerLen w1 + q div 8 < length (buf w1)" using bl q by (simp add: base_def)
  ultimately show ?thesis
    unfolding w'
    by (intro checkNullBit_cong) (auto simp: byteAt_def nth_append)
qed


lemma checkUnsetFields_at:
  assumes i: "i < length (fieldList sch)"
    and reach: "checkUnsetLoop env sch [0 ..< i] w = Inr (SUCCEEDED, wi)"
  shows "checkUnsetFields env sch w =
           (case checkUnsetField env sch i wi of
              Inl e \<Rightarrow> Inl e
            | Inr (r, w2) \<Rightarrow>
                if r \<noteq> SUCCEEDED then Inr (r, w2)
                else checkUnsetLoop env sch [Suc i ..< length (fieldList sch)] w2)"
proof -
  have "[0 ..< i + (length (fieldList sch) - i)]
          = [0 ..< i] @ [i ..< i + (length (fieldList sch) - i)]"
    by (rule upt_add_eq_append) simp
  then have "[0 ..< length (fieldList sch)] = [0 ..< i] @ i # [Suc i ..< length (fieldList sch)]"
    using i by (simp add: upt_conv_Cons)
  then show ?thesis
    using reach by (simp add: checkUnsetFields_def checkUnsetLoop_append)
qed

text \<open>
  Claim C6. At \<open>finish()\<close> on a well-formed writer, when the loop of
  \<open>checkUnsetFields\<close> comes to a field \<open>i\<close> that is not set (the fields before it
  have been filled in, giving the writer \<open>wi\<close>): a default that is a literal of a
  supported kind other than NULL goes through the typed writer that \<open>setValue\<close> uses
  for it; a nullable field with a NULL default or with no default has its null flag
  set, and the flag is set in the emitted record; a field that is not nullable and has
  no default makes \<open>finish()\<close> return FIELD_UNSET. Whatever the step for the field
  returns other than SUCCEEDED, \<open>finish()\<close> returns.
\<close>

theorem unset_fields_at_finish:
  assumes wf: "wfSchema sch" and ww: "wfWriter sch w"
    and i: "i < length (fieldList sch)" and unset: "\<not> isSet w ! i"
    and reach: "checkUnsetLoop env sch [0 ..< i] w = Inr (SUCCEEDED, wi)"
  shows "(\<forall>d. defaultValue (fieldList sch ! i) = Some d \<longrightarrow>
              (\<forall>bad. d \<noteq> NullValue bad) \<longrightarrow> d \<noteq> OtherV \<longrightarrow>
              checkUnsetField env sch i wi = setValue env sch (int i) d wi) \<and>
         (nullable (fieldList sch ! i) \<longrightarrow>
            (defaultValue (fieldList sch ! i) = None \<or>
             (\<exists>bad. defaultValue (fieldList sch ! i) = Some (NullValue bad))) \<longrightarrow>
            checkUnsetField env sch i wi
              = Inr (SUCCEEDED, setNullBit (nullFlagPos (fieldList sch ! i)) wi) \<and>
            (\<forall>ts w'. finish env sch ts w = Inr (SUCCEEDED, w') \<longrightarrow> isNull sch w' i)) \<and>
         (\<not> nullable (fieldList sch ! i) \<longrightarrow> defaultValue (fieldList sch ! i) = None \<longrightarrow>
            (\<forall>ts. finish env sch ts w = Inr (FIELD_UNSET, wi))) \<and>
         (\<forall>r w2 ts. checkUnsetField env sch i wi = Inr (r, w2) \<longrightarrow> r \<noteq> SUCCEEDED \<longrightarrow>
            finish env sch ts w = Inr (r, w2)) \<and>
         (\<forall>e ts. checkUnsetField env sch i wi = Inl e \<longrightarrow> finish env sch ts w = Inl e)"
proof -
  let ?n = "length (fieldList sch)"
  let ?f = "fieldList sch ! i"
  have nf: "\<not> finished w" using ww by (simp add: wfWriter_def)
  have sub: "set [0 ..< i] \<subseteq> {..< ?n}" "distinct [0 ..< i]" using i by auto
  from checkUnsetLoop_frame [OF wf ww sub reach]
  have wwi: "wfWriter sch wi"
    and fr: "frameOn (\<Union>k \<in> set [0 ..< i]. slotRange w (fieldList sch ! k))
               (\<Union>k \<in> set [0 ..< i]. flagOf (fieldList sch ! k)) (set [0 ..< i]) w wi"
    by blast+
  have unset_i: "\<not> isSet wi ! i" using fr unset by (auto simp: frameOn_def)
  have nfi: "\<not> finished wi" using wwi by (simp add: wfWriter_def)
  note at = checkUnsetFields_at [OF i reach]
  have fail: "finish env sch ts w = Inr (r, w2)"
    if "checkUnsetField env sch i wi = Inr (r, w2)" "r \<noteq> SUCCEEDED" for r w2 ts
    using that nf at by (simp add: finish_def)
  have fatal: "finish env sch ts w = Inl e"
    if "checkUnsetField env sch i wi = Inl e" for e ts
    using that nf at by (simp add: finish_def)
  have typed: "checkUnsetField env sch i wi = setValue env sch (int i) d wi"
    if d: "defaultValue ?f = Some d" "\<forall>bad. d \<noteq> NullValue bad" "d \<noteq> OtherV" for d
  proof (cases d)
    case (NullValue bad)
    with d(2) show ?thesis by blast
  qed (use d(1,3) unset_i nfi i in
        \<open>simp_all add: checkUnsetField_def Let_def hasDefault_def writeDefault_def
           setValue_def\<close>)
  have null: "checkUnsetField env sch i wi = Inr (SUCCEEDED, setNullBit (nullFlagPos ?f) wi) \<and>
              (\<forall>ts w'. finish env sch ts w = Inr (SUCCEEDED, w') \<longrightarrow> isNull sch w' i)"
    if n: "nullable ?f"
      and d: "defaultValue ?f = None \<or> (\<exists>bad. defaultValue ?f = Some (NullValue bad))"
  proof (intro conjI allI impI)
    show "checkUnsetField env sch i wi = Inr (SUCCEEDED, setNullBit (nullFlagPos ?f) wi)"
      using n d unset_i
      by (auto simp: checkUnsetField_def Let_def hasDefault_def writeDefault_def)
  next
    fix ts w' assume fin: "finish env sch ts w = Inr (SUCCEEDED, w')"
    from fin obtain w1 where cu: "checkUnsetFields env sch w = Inr (SUCCEEDED, w1)"
      by (rule finish_succeeded)
    then have loop: "checkUnsetLoop env sch [0 ..< ?n] w = Inr (SUCCEEDED, w1)"
      by (simp add: checkUnsetFields_def)
    have sub': "set [0 ..< ?n] \<subseteq> {..< ?n}" "distinct [0 ..< ?n]" by auto
    have na: "nullAtFinish sch w i" using unset d by (simp add: nullAtFinish_def)
    from checkUnsetLoop_frame [OF wf ww sub' loop] i n na
    have ww1: "wfWriter sch w1" and b1: "checkNullBit (nullFlagPos ?f) w1"
      by auto
    have "checkNullBit (nullFlagPos ?f) w' = checkNullBit (nullFlagPos ?f) w1"
      by (rule finish_nullbit [OF fin cu ww1 wf_flag [OF wf ww1 i n]])
    with b1 n show "isNull sch w' i" by (simp add: isNull_def)
  qed
  have unsetf: "finish env sch ts w = Inr (FIELD_UNSET, wi)"
    if "\<not> nullable ?f" "defaultValue ?f = None" for ts
  proof -
    have "checkUnsetField env sch i wi = Inr (FIELD_UNSET, wi)"
      using that unset_i by (simp add: checkUnsetField_def Let_def hasDefault_def)
    then show ?thesis by (intro fail) simp_all
  qed
  from typed null unsetf fail fatal show ?thesis by blast
qed


theorem unset_fields_at_finish_witness:
  "wfSchema (defaultsSchema []) \<and> wfSchema (defaultsSchema [thirdField]) \<and>
   RowWriterV2 (defaultsSchema []) = Inr (unsetWriter 2) \<and>
   RowWriterV2 (defaultsSchema [thirdField]) = Inr (unsetWriter 3) \<and>
   checkUnsetField exampleEnv (defaultsSchema []) 0 (unsetWriter 2)
     = setValue exampleEnv (defaultsSchema []) 0 (IntV 5) (unsetWriter 2) \<and>
   finish exampleEnv (defaultsSchema []) 0 (unsetWriter 2)
     = Inr (SUCCEEDED,
            (unsetWriter 2)\<lparr>buf := [0x08, 0x80, 5, 0] @ [0, 0, 0, 0, 0, 0, 0, 0],
                             finished := True, isSet := [True, False]\<rparr>) \<and>
   isNull (defaultsSchema [])
     ((unsetWriter 2)\<lparr>buf := [0x08, 0x80, 5, 0] @ [0, 0, 0, 0, 0, 0, 0, 0],
                        finished := True, isSet := [True, False]\<rparr>) 1 \<and>
   finish exampleEnv (defaultsSchema [thirdField]) 0 (unsetWriter 3)
     = Inr (FIELD_UNSET,
            (unsetWriter 3)\<lparr>buf := [0x08, 0x80, 5, 0, 0], isSet := [True, False, False]\<rparr>)"
proof -
  let ?s2 = "defaultsSchema []"
  let ?s3 = "defaultsSchema [thirdField]"
  let ?w2 = "unsetWriter 2"
  let ?w3 = "unsetWriter 3"
  let ?w2a = "?w2\<lparr>buf := [0x08, 0, 5, 0], isSet := [True, False]\<rparr>"
  let ?w2' = "?w2\<lparr>buf := [0x08, 0x80, 5, 0] @ [0, 0, 0, 0, 0, 0, 0, 0],
                   finished := True, isSet := [True, False]\<rparr>"
  let ?w3b = "?w3\<lparr>buf := [0x08, 0x80, 5, 0, 0], isSet := [True, False, False]\<rparr>"
  have wf2: "wfSchema ?s2"
    by (auto simp: wfSchema_def defaultsSchema_def plainField_def slotBytes_def less_Suc_eq
        numeral_2_eq_2)
  have wf3: "wfSchema ?s3"
    by (auto simp: wfSchema_def defaultsSchema_def thirdField_def plainField_def slotBytes_def
        less_Suc_eq numeral_2_eq_2 numeral_3_eq_3)
  have ww2: "wfWriter ?s2 ?w2"
    by (simp add: wfWriter_def unsetWriter_def defaultsSchema_def base_def nullBytesFor_def)
  have ww3: "wfWriter ?s3 ?w3"
    by (simp add: wfWriter_def unsetWriter_def defaultsSchema_def base_def nullBytesFor_def)
  have new2: "RowWriterV2 ?s2 = Inr ?w2" by code_simp
  have new3: "RowWriterV2 ?s3 = Inr ?w3" by code_simp
  have i2: "0 < length (fieldList ?s2)" "1 < length (fieldList ?s2)"
    "\<not> isSet ?w2 ! 0" "\<not> isSet ?w2 ! 1"
    by (simp_all add: defaultsSchema_def unsetWriter_def)
  have i3: "2 < length (fieldList ?s3)" "\<not> isSet ?w3 ! 2"
    by (simp_all add: defaultsSchema_def unsetWriter_def numeral_2_eq_2 numeral_3_eq_3)
  have r0: "checkUnsetLoop exampleEnv ?s2 [0 ..< 0] ?w2 = Inr (SUCCEEDED, ?w2)" by simp
  have r1: "checkUnsetLoop exampleEnv ?s2 [0 ..< 1] ?w2 = Inr (SUCCEEDED, ?w2a)" by code_simp
  have r2: "checkUnsetLoop exampleEnv ?s3 [0 ..< 2] ?w3 = Inr (SUCCEEDED, ?w3b)" by code_simp
  have d0: "defaultValue (fieldList ?s2 ! 0) = Some (IntV 5)"
    by (simp add: defaultsSchema_def)
  have d1: "nullable (fieldList ?s2 ! 1)" "defaultValue (fieldList ?s2 ! 1) = None"
    by (simp_all add: defaultsSchema_def plainField_def)
  have d2: "\<not> nullable (fieldList ?s3 ! 2)" "defaultValue (fieldList ?s3 ! 2) = None"
    by (simp_all add: defaultsSchema_def thirdField_def plainField_def numeral_2_eq_2)
  have fin2: "finish exampleEnv ?s2 0 ?w2 = Inr (SUCCEEDED, ?w2')" by code_simp
  have a: "checkUnsetField exampleEnv ?s2 0 ?w2 = setValue exampleEnv ?s2 (int 0) (IntV 5) ?w2"
    using unset_fields_at_finish [OF wf2 ww2 i2(1) i2(3) r0] d0 by blast
  have b: "isNull ?s2 ?w2' 1"
    using unset_fields_at_finish [OF wf2 ww2 i2(2) i2(4) r1] d1 fin2 by blast
  have c: "finish exampleEnv ?s3 0 ?w3 = Inr (FIELD_UNSET, ?w3b)"
    using unset_fields_at_finish [OF wf3 ww3 i3 r2] d2 by blast
  from wf2 wf3 new2 new3 a b c fin2 show ?thesis by simp
qed

end
